theory Spec2Isabelle
  imports Complex_Main "HOL-Library.Sublist"
begin

section \<open>Data model of \<^verbatim>\<open>src/client.py\<close>\<close>

text \<open>
  A shallow embedding of \<^verbatim>\<open>MoltbookClient\<close>: the request executor (\<^verbatim>\<open>_enforce_throttle\<close>,
  \<^verbatim>\<open>_on_429\<close>, \<^verbatim>\<open>_on_success\<close>, \<^verbatim>\<open>_request\<close>), the two streaming collectors and the
  single-call operations. The client is single-threaded; its attributes and the world it
  acts on (clock, sleeps, requests sent, random numbers drawn) are one record that every
  operation takes and returns. Every Python exception is a value of type \<open>error\<close>, and
  an operation returns \<open>Inl\<close> of it together with the state at the moment of the raise.
  Times and delays are real numbers (the rounding of Python floats is not modelled), and
  reading the clock takes no time. The callbacks \<^verbatim>\<open>on_request\<close> and \<^verbatim>\<open>on_page\<close> are
  recorders that do not raise; an interrupt from outside is not modelled.
\<close>

text \<open>
  JSON payloads as Python sees them after \<^verbatim>\<open>response.json()\<close>. Numbers are integers
  (JSON floats are not modelled); a \<open>JObj\<close> is a Python dict, looked up with
  \<open>map_of\<close>.
\<close>

datatype json =
    JNull
  | JBool bool
  | JInt int
  | JStr string
  | JList "json list"
  | JObj "(string \<times> json) list"

text \<open>
  The three messages with which \<^verbatim>\<open>RateLimitError\<close> is raised: by \<^verbatim>\<open>_on_429\<close>
  (consecutive count, total request count), by \<^verbatim>\<open>_request\<close> when a 429 arrives on the last
  attempt (\<^verbatim>\<open>max_retries\<close>), and after the loop of \<^verbatim>\<open>_request\<close>. All three are the same
  Python class.
\<close>

datatype rate_limit_msg =
    Consecutive429s nat nat
  | RetriesExhausted int
  | MaxRetriesExceeded

text \<open>Every exception is a subclass of Python's \<^verbatim>\<open>Exception\<close>.\<close>

datatype error =
    RateLimitError rate_limit_msg
  | TimeoutError
  | ConnectionError
  | HTTPError int
  | JSONDecodeError
  | AttributeError
  | TypeError
  | KeyError string
  | ValueError
  | UnboundLocalError

text \<open>The calls the client makes: endpoint and query parameters.\<close>

datatype request =
    GetSubmolts "int option"
  | GetPosts int "int option"
  | GetAgentProfile string
  | GetStats
  | GetModerators string
  | GetPost string

record response =
  status_code :: int
  body :: "json option"

text \<open>
  What \<^verbatim>\<open>session.request\<close> does: it raises \<^verbatim>\<open>requests.exceptions.Timeout\<close>, raises another
  transport exception, or returns a response. The server is an oracle from the ordinal of
  the attempt in the session (\<^verbatim>\<open>request_count\<close> after its increment) and the request to
  the outcome and the wall-clock time the call took.
\<close>

datatype outcome = TimedOut | Broken | Responded response

type_synonym server = "nat \<Rightarrow> request \<Rightarrow> outcome \<times> real"

text \<open>
  The first six fields are the attributes of \<^verbatim>\<open>MoltbookClient\<close>. The others are the world
  around it: \<open>clock\<close> is what \<^verbatim>\<open>time.time()\<close> returns (it advances by sleeps and by the
  duration of requests only), \<open>sleeps\<close> logs every \<^verbatim>\<open>time.sleep\<close>, \<open>issued\<close> logs every call
  of \<^verbatim>\<open>session.request\<close>, \<open>rand_calls\<close> counts the calls of \<^verbatim>\<open>random.randint\<close>.
\<close>

record client =
  max_retries :: int
  base_delay :: real
  request_count :: nat
  request_timestamps :: "real list"
  consecutive_429s :: nat
  cooldown_until :: real
  clock :: real
  sleeps :: "real list"
  issued :: "request list"
  rand_calls :: nat

abbreviation (input) RATE_WINDOW :: real where "RATE_WINDOW \<equiv> 60"
abbreviation (input) RATE_THRESHOLD :: nat where "RATE_THRESHOLD \<equiv> 90"
abbreviation (input) COOLDOWN_BASE :: nat where "COOLDOWN_BASE \<equiv> 30"
abbreviation (input) COOLDOWN_CAP :: nat where "COOLDOWN_CAP \<equiv> 300"
abbreviation (input) MAX_CONSECUTIVE_429S :: nat where "MAX_CONSECUTIVE_429S \<equiv> 10"

text \<open>\<^verbatim>\<open>MoltbookClient.__init__\<close>, in a world whose clock reads \<open>t\<close>.\<close>

definition new_client :: "int \<Rightarrow> real \<Rightarrow> real \<Rightarrow> client" where
  "new_client retries delay t =
     \<lparr>max_retries = retries, base_delay = delay, request_count = 0,
      request_timestamps = [], consecutive_429s = 0, cooldown_until = 0,
      clock = t, sleeps = [], issued = [], rand_calls = 0\<rparr>"

section \<open>The request executor\<close>

text \<open>\<^verbatim>\<open>time.sleep(d)\<close>: raises \<^verbatim>\<open>ValueError\<close> on a negative length.\<close>

definition sleep_for :: "real \<Rightarrow> client \<Rightarrow> client" where
  "sleep_for d s = s\<lparr>clock := clock s + d, sleeps := sleeps s @ [d]\<rparr>"

definition py_sleep :: "real \<Rightarrow> client \<Rightarrow> error + client" where
  "py_sleep d s = (if d < 0 then Inl ValueError else Inr (sleep_for d s))"

text \<open>
  \<^verbatim>\<open>_enforce_throttle\<close>. Both sleeps are guarded by a positive length, so neither can raise.
  The \<^verbatim>\<open>while\<close> loop pops from the left while the head is older than the cutoff:
  \<open>dropWhile\<close>.
\<close>

definition trim_window :: "client \<Rightarrow> client" where
  "trim_window s =
     (let cutoff = clock s - RATE_WINDOW
      in s\<lparr>request_timestamps := dropWhile (\<lambda>t. t < cutoff) (request_timestamps s)\<rparr>)"

definition enforce_throttle :: "client \<Rightarrow> client" where
  "enforce_throttle s =
     (let now = clock s;
          s1 = (if now < cooldown_until s then sleep_for (cooldown_until s - now) s else s);
          s2 = trim_window s1
      in if length (request_timestamps s2) \<ge> RATE_THRESHOLD then
           (let oldest = hd (request_timestamps s2);
                sleep_time = oldest + RATE_WINDOW - clock s2 + 1 / 10
            in if sleep_time > 0 then sleep_for sleep_time s2 else s2)
         else s2)"

text \<open>
  \<^verbatim>\<open>_on_429\<close>. The increment of the counter is kept when the function raises, so the state
  is returned on both paths.
\<close>

definition on_429 :: "client \<Rightarrow> (error + unit) \<times> client" where
  "on_429 s =
     (let s1 = s\<lparr>consecutive_429s := consecutive_429s s + 1\<rparr>
      in if consecutive_429s s1 \<ge> MAX_CONSECUTIVE_429S then
           (Inl (RateLimitError (Consecutive429s (consecutive_429s s1) (request_count s1))), s1)
         else if consecutive_429s s1 \<ge> 3 then
           (let exponent = consecutive_429s s1 - 3;
                cooldown = min (COOLDOWN_BASE * 2 ^ exponent) COOLDOWN_CAP
            in (Inr (), s1\<lparr>cooldown_until := clock s1 + real cooldown\<rparr>))
         else (Inr (), s1))"

definition on_success :: "client \<Rightarrow> client" where
  "on_success s =
     s\<lparr>consecutive_429s := 0, request_timestamps := request_timestamps s @ [clock s]\<rparr>"

text \<open>
  The backoff of \<^verbatim>\<open>_request\<close>: \<^verbatim>\<open>delay = base_delay * (2 ** attempt); time.sleep(delay)\<close>.
\<close>

definition backoff :: "nat \<Rightarrow> client \<Rightarrow> error + client" where
  "backoff attempt s = py_sleep (base_delay s * 2 ^ attempt) s"

text \<open>
  \<^verbatim>\<open>_request\<close>: the body of the \<^verbatim>\<open>for attempt in range(self.max_retries + 1)\<close> loop, over
  the attempts still to run; \<^verbatim>\<open>continue\<close> is the recursive call, and the empty list is the
  statement after the loop. The log \<open>issued\<close> grows where \<^verbatim>\<open>on_request(url)\<close> and
  \<^verbatim>\<open>session.request\<close> are called. The default of 30 seconds for \<^verbatim>\<open>timeout\<close> only decides when
  the transport gives up, which is the server oracle's \<open>TimedOut\<close>.
\<close>

fun request_loop :: "server \<Rightarrow> request \<Rightarrow> nat list \<Rightarrow> client \<Rightarrow> (error + response) \<times> client" where
  "request_loop srv q [] s = (Inl (RateLimitError MaxRetriesExceeded), s)"
| "request_loop srv q (attempt # rest) s =
     (let s1 = enforce_throttle s;
          s2 = s1\<lparr>request_count := request_count s1 + 1, issued := issued s1 @ [q]\<rparr>;
          reply = srv (request_count s2) q;
          s3 = s2\<lparr>clock := clock s2 + snd reply\<rparr>
      in case fst reply of
           TimedOut \<Rightarrow>
             if int attempt < max_retries s3 then
               (case backoff attempt s3 of
                  Inl e \<Rightarrow> (Inl e, s3)
                | Inr s4 \<Rightarrow> request_loop srv q rest s4)
             else (Inl TimeoutError, s3)
         | Broken \<Rightarrow> (Inl ConnectionError, s3)
         | Responded r \<Rightarrow>
             if status_code r = 429 then
               (case on_429 s3 of
                  (Inl e, s4) \<Rightarrow> (Inl e, s4)
                | (Inr u, s4) \<Rightarrow>
                    if int attempt < max_retries s4 then
                      (case backoff attempt s4 of
                         Inl e \<Rightarrow> (Inl e, s4)
                       | Inr s5 \<Rightarrow> request_loop srv q rest s5)
                    else (Inl (RateLimitError (RetriesExhausted (max_retries s4))), s4))
             else if status_code r \<ge> 500 then
               (if int attempt < max_retries s3 then
                  (case backoff attempt s3 of
                     Inl e \<Rightarrow> (Inl e, s3)
                   | Inr s4 \<Rightarrow> request_loop srv q rest s4)
                else (Inr r, on_success s3))
             else (Inr r, on_success s3))"

definition request :: "server \<Rightarrow> request \<Rightarrow> client \<Rightarrow> (error + response) \<times> client" where
  "request srv q s = request_loop srv q [0 ..< nat (max_retries s + 1)] s"

section \<open>Python values\<close>

text \<open>Truth value of a JSON value, as \<^verbatim>\<open>if not x\<close> tests it.\<close>

fun truthy :: "json \<Rightarrow> bool" where
  "truthy JNull = False"
| "truthy (JBool b) = b"
| "truthy (JInt i) = (i \<noteq> 0)"
| "truthy (JStr t) = (t \<noteq> [])"
| "truthy (JList xs) = (xs \<noteq> [])"
| "truthy (JObj kvs) = (kvs \<noteq> [])"

text \<open>\<^verbatim>\<open>d.get(k, default)\<close>: only a dict has the method.\<close>

fun dict_get :: "json \<Rightarrow> string \<Rightarrow> json \<Rightarrow> error + json" where
  "dict_get (JObj kvs) k d = Inr (case map_of kvs k of None \<Rightarrow> d | Some v \<Rightarrow> v)"
| "dict_get JNull k d = Inl AttributeError"
| "dict_get (JBool b) k d = Inl AttributeError"
| "dict_get (JInt i) k d = Inl AttributeError"
| "dict_get (JStr t) k d = Inl AttributeError"
| "dict_get (JList xs) k d = Inl AttributeError"

text \<open>\<^verbatim>\<open>d[k]\<close> with a string key: \<^verbatim>\<open>KeyError\<close> on a dict without it, \<^verbatim>\<open>TypeError\<close> elsewhere.\<close>

fun dict_item :: "json \<Rightarrow> string \<Rightarrow> error + json" where
  "dict_item (JObj kvs) k = (case map_of kvs k of None \<Rightarrow> Inl (KeyError k) | Some v \<Rightarrow> Inr v)"
| "dict_item JNull k = Inl TypeError"
| "dict_item (JBool b) k = Inl TypeError"
| "dict_item (JInt i) k = Inl TypeError"
| "dict_item (JStr t) k = Inl TypeError"
| "dict_item (JList xs) k = Inl TypeError"

text \<open>
  \<^verbatim>\<open>for x in v\<close>: a list yields its elements, a string its characters, a dict its keys;
  nothing else is iterable.
\<close>

fun py_iter :: "json \<Rightarrow> error + json list" where
  "py_iter (JList xs) = Inr xs"
| "py_iter (JStr t) = Inr (map (\<lambda>ch. JStr [ch]) t)"
| "py_iter (JObj kvs) = Inr (map (\<lambda>kv. JStr (fst kv)) kvs)"
| "py_iter JNull = Inl TypeError"
| "py_iter (JBool b) = Inl TypeError"
| "py_iter (JInt i) = Inl TypeError"

text \<open>
  Members of a Python set: \<^verbatim>\<open>None\<close>, numbers and strings, where \<^verbatim>\<open>True == 1\<close> and
  \<^verbatim>\<open>False == 0\<close>; a list or a dict is unhashable.
\<close>

datatype key = KNone | KInt int | KStr string

fun py_hash_key :: "json \<Rightarrow> error + key" where
  "py_hash_key JNull = Inr KNone"
| "py_hash_key (JBool b) = Inr (KInt (if b then 1 else 0))"
| "py_hash_key (JInt i) = Inr (KInt i)"
| "py_hash_key (JStr t) = Inr (KStr t)"
| "py_hash_key (JList xs) = Inl TypeError"
| "py_hash_key (JObj kvs) = Inl TypeError"

text \<open>\<^verbatim>\<open>v > 0\<close>: defined on numbers (a bool is a number) only.\<close>

fun py_gt0 :: "json \<Rightarrow> error + bool" where
  "py_gt0 (JInt i) = Inr (i > 0)"
| "py_gt0 (JBool b) = Inr b"
| "py_gt0 JNull = Inl TypeError"
| "py_gt0 (JStr t) = Inl TypeError"
| "py_gt0 (JList xs) = Inl TypeError"
| "py_gt0 (JObj kvs) = Inl TypeError"

text \<open>\<^verbatim>\<open>all(v > 0 for v in vs)\<close> stops at the first false value.\<close>

fun all_positive :: "json list \<Rightarrow> error + bool" where
  "all_positive [] = Inr True"
| "all_positive (v # vs) =
     (case py_gt0 v of
        Inl e \<Rightarrow> Inl e
      | Inr b \<Rightarrow> if b then all_positive vs else Inr False)"

definition bind_err :: "error + 'a \<Rightarrow> ('a \<Rightarrow> error + 'b) \<Rightarrow> error + 'b" where
  "bind_err m f = (case m of Inl e \<Rightarrow> Inl e | Inr x \<Rightarrow> f x)"

text \<open>\<^verbatim>\<open>response.raise_for_status()\<close> and \<^verbatim>\<open>response.json()\<close>.\<close>

definition raise_for_status :: "response \<Rightarrow> error + unit" where
  "raise_for_status r =
     (if 400 \<le> status_code r \<and> status_code r < 600 then Inl (HTTPError (status_code r))
      else Inr ())"

definition response_json :: "response \<Rightarrow> error + json" where
  "response_json r = (case body r of None \<Rightarrow> Inl JSONDecodeError | Some d \<Rightarrow> Inr d)"

text \<open>
  \<^verbatim>\<open>random.randint(a, b)\<close> for \<open>a \<le> b\<close>: the random source is an oracle \<open>rng\<close>, read at
  the number of the call.
\<close>

definition randint :: "(nat \<Rightarrow> nat) \<Rightarrow> int \<Rightarrow> int \<Rightarrow> client \<Rightarrow> int \<times> client" where
  "randint rng a b s =
     (a + int (rng (rand_calls s) mod nat (b - a + 1)), s\<lparr>rand_calls := rand_calls s + 1\<rparr>)"

section \<open>Single-call operations\<close>

definition fetch_agent_profile :: "server \<Rightarrow> string \<Rightarrow> client \<Rightarrow> (error + json) \<times> client" where
  "fetch_agent_profile srv name s =
     (case request srv (GetAgentProfile name) s of
        (Inl e, s1) \<Rightarrow> (Inl e, s1)
      | (Inr r, s1) \<Rightarrow>
          (bind_err (raise_for_status r) (\<lambda>u.
           bind_err (response_json r) (\<lambda>data.
           bind_err (dict_get data ''success'' (JBool False)) (\<lambda>ok.
             if \<not> truthy ok then Inr JNull else dict_item data ''agent''))),
           s1))"

definition fetch_post_with_comments :: "server \<Rightarrow> string \<Rightarrow> client \<Rightarrow> (error + json) \<times> client" where
  "fetch_post_with_comments srv post_id s =
     (case request srv (GetPost post_id) s of
        (Inl e, s1) \<Rightarrow> (Inl e, s1)
      | (Inr r, s1) \<Rightarrow>
          (if status_code r = 404 then Inr JNull
           else
             bind_err (raise_for_status r) (\<lambda>u.
             bind_err (response_json r) (\<lambda>data.
             bind_err (dict_get data ''success'' (JBool False)) (\<lambda>ok.
               if \<not> truthy ok then Inr JNull
               else
                 bind_err (dict_get data ''post'' JNull) (\<lambda>post.
                 bind_err (dict_get data ''comments'' (JList [])) (\<lambda>comments.
                   Inr (JObj [(''post'', post), (''comments'', comments)])))))),
           s1))"

text \<open>
  \<^verbatim>\<open>fetch_submolt_moderators\<close>: the whole body is inside \<^verbatim>\<open>try ... except Exception: return []\<close>.
\<close>

definition fetch_submolt_moderators :: "server \<Rightarrow> string \<Rightarrow> client \<Rightarrow> (error + json) \<times> client" where
  "fetch_submolt_moderators srv submolt_name s =
     (case request srv (GetModerators submolt_name) s of
        (Inl e, s1) \<Rightarrow> (Inr (JList []), s1)
      | (Inr r, s1) \<Rightarrow>
          (if status_code r = 404 then Inr (JList [])
           else
             (case bind_err (raise_for_status r) (\<lambda>u.
                   bind_err (response_json r) (\<lambda>data.
                     dict_get data ''moderators'' (JList []))) of
                Inl e \<Rightarrow> Inr (JList [])
              | Inr ms \<Rightarrow> Inr ms),
           s1))"

text \<open>
  \<^verbatim>\<open>fetch_platform_stats\<close>: the loop over \<^verbatim>\<open>range(max_retries)\<close> (the parameter of the
  function, here \<open>retries\<close>), with the local \<^verbatim>\<open>stats\<close> as an option: it is unbound until the
  body has assigned it, and \<^verbatim>\<open>return stats\<close> after the loop raises when it still is.
\<close>

definition stats_of :: "json \<Rightarrow> error + (string \<times> json) list" where
  "stats_of data =
     bind_err (dict_get data ''agents'' (JInt 0)) (\<lambda>a.
     bind_err (dict_get data ''submolts'' (JInt 0)) (\<lambda>b.
     bind_err (dict_get data ''posts'' (JInt 0)) (\<lambda>c.
     bind_err (dict_get data ''comments'' (JInt 0)) (\<lambda>d.
       Inr [(''agents'', a), (''submolts'', b), (''posts'', c), (''comments'', d)]))))"

fun stats_loop ::
  "server \<Rightarrow> int \<Rightarrow> nat list \<Rightarrow> (string \<times> json) list option \<Rightarrow> client
     \<Rightarrow> (error + json) \<times> client" where
  "stats_loop srv retries [] stats s =
     (case stats of None \<Rightarrow> (Inl UnboundLocalError, s) | Some st \<Rightarrow> (Inr (JObj st), s))"
| "stats_loop srv retries (attempt # rest) stats s =
     (case request srv GetStats s of
        (Inl e, s1) \<Rightarrow> (Inl e, s1)
      | (Inr r, s1) \<Rightarrow>
          (case bind_err (raise_for_status r) (\<lambda>u. bind_err (response_json r) stats_of) of
             Inl e \<Rightarrow> (Inl e, s1)
           | Inr st \<Rightarrow>
               (case all_positive (map snd st) of
                  Inl e \<Rightarrow> (Inl e, s1)
                | Inr b \<Rightarrow>
                    if b then (Inr (JObj st), s1)
                    else if int attempt < retries - 1 then
                      (case py_sleep (base_delay s1 * real (attempt + 1)) s1 of
                         Inl e \<Rightarrow> (Inl e, s1)
                       | Inr s2 \<Rightarrow> stats_loop srv retries rest (Some st) s2)
                    else stats_loop srv retries rest (Some st) s1)))"

definition fetch_platform_stats :: "server \<Rightarrow> int \<Rightarrow> client \<Rightarrow> (error + json) \<times> client" where
  "fetch_platform_stats srv retries s = stats_loop srv retries [0 ..< nat retries] None s"

section \<open>Streaming collectors\<close>

text \<open>
  The locals of \<^verbatim>\<open>fetch_submolts_streaming\<close> and \<^verbatim>\<open>fetch_posts_streaming\<close>: \<open>total_count\<close>
  is \<^verbatim>\<open>total\<close> / \<^verbatim>\<open>total_posts\<close>, \<open>seen_keys\<close> is \<^verbatim>\<open>seen_names\<close> / \<^verbatim>\<open>seen_ids\<close>.
  \<open>delivered\<close> records the calls of the \<^verbatim>\<open>on_page\<close> callback of this run, in order; the
  callback itself is taken not to raise.
\<close>

record collector =
  total_count :: nat
  offset :: int
  page :: nat
  seen_keys :: "key set"
  stale_pages :: nat
  consecutive_errors :: nat
  delivered :: "(nat \<times> json list) list"

definition init_collector :: collector where
  "init_collector =
     \<lparr>total_count = 0, offset = 0, page = 0, seen_keys = {}, stale_pages = 0,
      consecutive_errors = 0, delivered = []\<rparr>"

text \<open>\<^verbatim>\<open>s.get(field)\<close>, then its use as a member of the set of seen keys.\<close>

definition record_key :: "string \<Rightarrow> json \<Rightarrow> error + key" where
  "record_key field x = bind_err (dict_get x field JNull) py_hash_key"

text \<open>\<^verbatim>\<open>[s for s in items if s.get(field) not in seen]\<close>: the set is not updated meanwhile.\<close>

fun new_records :: "string \<Rightarrow> key set \<Rightarrow> json list \<Rightarrow> error + json list" where
  "new_records field seen [] = Inr []"
| "new_records field seen (x # xs) =
     (case record_key field x of
        Inl e \<Rightarrow> Inl e
      | Inr k \<Rightarrow>
          (case new_records field seen xs of
             Inl e \<Rightarrow> Inl e
           | Inr ys \<Rightarrow> Inr (if k \<notin> seen then x # ys else ys)))"

text \<open>
  \<^verbatim>\<open>for s in new: seen.add(s.get(field))\<close>. The records passed the filter, so their keys
  exist; the error branch is never taken.
\<close>

fun add_keys :: "string \<Rightarrow> json list \<Rightarrow> key set \<Rightarrow> key set" where
  "add_keys field [] seen = seen"
| "add_keys field (x # xs) seen =
     add_keys field xs (case record_key field x of Inl e \<Rightarrow> seen | Inr k \<Rightarrow> insert k seen)"

text \<open>What one pass through the body of \<^verbatim>\<open>while True\<close> ends in.\<close>

datatype control = Continue | Break | Raise error

text \<open>The \<^verbatim>\<open>try\<close> block of \<^verbatim>\<open>fetch_submolts_streaming\<close>: it includes the decoding.\<close>

definition try_fetch_submolts :: "server \<Rightarrow> int \<Rightarrow> client \<Rightarrow> (error + json) \<times> client" where
  "try_fetch_submolts srv off s =
     (case request srv (GetSubmolts (if off > 0 then Some off else None)) s of
        (Inl e, s1) \<Rightarrow> (Inl e, s1)
      | (Inr r, s1) \<Rightarrow>
          (bind_err (raise_for_status r) (\<lambda>u.
           bind_err (response_json r) (\<lambda>data.
             dict_get data ''submolts'' (JList []))),
           s1))"

definition submolts_pass ::
  "server \<Rightarrow> (nat \<Rightarrow> nat) \<Rightarrow> int \<Rightarrow> int \<Rightarrow> collector \<Rightarrow> client
     \<Rightarrow> control \<times> collector \<times> client" where
  "submolts_pass srv rng target_count max_stale_pages c s =
     (case try_fetch_submolts srv (offset c) s of
        (Inl e, s1) \<Rightarrow>
          (let c1 = c\<lparr>consecutive_errors := consecutive_errors c + 1\<rparr>
           in if consecutive_errors c1 \<ge> 10 then (Break, c1, s1)
              else
                (let rs = randint rng 0 (max target_count 20000) s1;
                     c2 = c1\<lparr>offset := fst rs\<rparr>
                 in case py_sleep (base_delay (snd rs) * real (consecutive_errors c2)) (snd rs) of
                      Inl e' \<Rightarrow> (Raise e', c2, snd rs)
                    | Inr s3 \<Rightarrow> (Continue, c2, s3)))
      | (Inr submolts, s1) \<Rightarrow>
          (let c1 = c\<lparr>consecutive_errors := 0\<rparr>
           in if \<not> truthy submolts then
                (if target_count > 0 \<and> int (total_count c1) < target_count then
                   (let c2 = c1\<lparr>offset := (offset c1 + 1000) mod (target_count * 2),
                                 stale_pages := stale_pages c1 + 1\<rparr>
                    in if int (stale_pages c2) \<ge> max_stale_pages then (Break, c2, s1)
                       else (Continue, c2, s1))
                 else (Break, c1, s1))
              else
                (case py_iter submolts of
                   Inl e \<Rightarrow> (Raise e, c1, s1)
                 | Inr items \<Rightarrow>
                     (case new_records ''name'' (seen_keys c1) items of
                        Inl e \<Rightarrow> (Raise e, c1, s1)
                      | Inr new_submolts \<Rightarrow>
                          (let c2 =
                                 (if new_submolts \<noteq> [] then
                                    c1\<lparr>page := page c1 + 1,
                                       delivered := delivered c1 @ [(page c1 + 1, new_submolts)],
                                       total_count := total_count c1 + length new_submolts,
                                       seen_keys := add_keys ''name'' new_submolts (seen_keys c1),
                                       stale_pages := 0\<rparr>
                                  else c1\<lparr>stale_pages := stale_pages c1 + 1\<rparr>)
                           in if target_count > 0 \<and> int (total_count c2) \<ge> target_count then
                                (Break, c2, s1)
                              else if int (stale_pages c2) \<ge> max_stale_pages then (Break, c2, s1)
                              else if 2 * length new_submolts < length items then
                                (let rs = randint rng 0 (max target_count 20000) s1
                                 in (Continue, c2\<lparr>offset := fst rs\<rparr>, snd rs))
                              else (Continue, c2\<lparr>offset := offset c2 + 100\<rparr>, s1))))))"

text \<open>
  \<^verbatim>\<open>while True\<close> may run forever, so the loop takes fuel: \<open>None\<close> is a run that has not
  returned after \<open>fuel\<close> passes, with the locals and the client as they are then.
\<close>

fun submolts_loop ::
  "nat \<Rightarrow> server \<Rightarrow> (nat \<Rightarrow> nat) \<Rightarrow> int \<Rightarrow> int \<Rightarrow> collector \<Rightarrow> client
     \<Rightarrow> (error + nat) option \<times> collector \<times> client" where
  "submolts_loop 0 srv rng target_count max_stale_pages c s = (None, c, s)"
| "submolts_loop (Suc fuel) srv rng target_count max_stale_pages c s =
     (case submolts_pass srv rng target_count max_stale_pages c s of
        (Continue, c', s') \<Rightarrow> submolts_loop fuel srv rng target_count max_stale_pages c' s'
      | (Break, c', s') \<Rightarrow> (Some (Inr (total_count c')), c', s')
      | (Raise e, c', s') \<Rightarrow> (Some (Inl e), c', s'))"

definition fetch_submolts_streaming ::
  "nat \<Rightarrow> server \<Rightarrow> (nat \<Rightarrow> nat) \<Rightarrow> int \<Rightarrow> int \<Rightarrow> client
     \<Rightarrow> (error + nat) option \<times> collector \<times> client" where
  "fetch_submolts_streaming fuel srv rng target_count max_stale_pages s =
     submolts_loop fuel srv rng target_count max_stale_pages init_collector s"

text \<open>
  \<^verbatim>\<open>fetch_posts_streaming\<close>: its \<^verbatim>\<open>try\<close> block ends after \<^verbatim>\<open>raise_for_status\<close>; the decoding
  follows it and raises to the caller.
\<close>

definition try_fetch_posts :: "server \<Rightarrow> int \<Rightarrow> client \<Rightarrow> (error + response) \<times> client" where
  "try_fetch_posts srv off s =
     (case request srv (GetPosts 100 (if off > 0 then Some off else None)) s of
        (Inl e, s1) \<Rightarrow> (Inl e, s1)
      | (Inr r, s1) \<Rightarrow> (bind_err (raise_for_status r) (\<lambda>u. Inr r), s1))"

definition posts_pass ::
  "server \<Rightarrow> (nat \<Rightarrow> nat) \<Rightarrow> int \<Rightarrow> int \<Rightarrow> collector \<Rightarrow> client
     \<Rightarrow> control \<times> collector \<times> client" where
  "posts_pass srv rng target_count max_stale_pages c s =
     (case try_fetch_posts srv (offset c) s of
        (Inl e, s1) \<Rightarrow>
          (let c1 = c\<lparr>consecutive_errors := consecutive_errors c + 1\<rparr>
           in if consecutive_errors c1 \<ge> 10 then (Break, c1, s1)
              else
                (let rs = randint rng 0 (max target_count 100000) s1;
                     c2 = c1\<lparr>offset := fst rs\<rparr>
                 in case py_sleep (base_delay (snd rs) * real (consecutive_errors c2)) (snd rs) of
                      Inl e' \<Rightarrow> (Raise e', c2, snd rs)
                    | Inr s3 \<Rightarrow> (Continue, c2, s3)))
      | (Inr r, s1) \<Rightarrow>
          (let c1 = c\<lparr>consecutive_errors := 0\<rparr>
           in case bind_err (response_json r) (\<lambda>data. dict_get data ''posts'' (JList [])) of
                Inl e \<Rightarrow> (Raise e, c1, s1)
              | Inr posts \<Rightarrow>
                  if \<not> truthy posts then
                    (if target_count > 0 \<and> int (total_count c1) < target_count then
                       (let c2 = c1\<lparr>offset := (offset c1 + 500) mod (target_count * 2),
                                     stale_pages := stale_pages c1 + 1\<rparr>
                        in if int (stale_pages c2) \<ge> max_stale_pages then (Break, c2, s1)
                           else (Continue, c2, s1))
                     else (Break, c1, s1))
                  else
                    (case py_iter posts of
                       Inl e \<Rightarrow> (Raise e, c1, s1)
                     | Inr items \<Rightarrow>
                         (case new_records ''id'' (seen_keys c1) items of
                            Inl e \<Rightarrow> (Raise e, c1, s1)
                          | Inr new_posts \<Rightarrow>
                              (let c2 =
                                     (if new_posts \<noteq> [] then
                                        c1\<lparr>page := page c1 + 1,
                                           delivered := delivered c1 @ [(page c1 + 1, new_posts)],
                                           total_count := total_count c1 + length new_posts,
                                           seen_keys := add_keys ''id'' new_posts (seen_keys c1),
                                           stale_pages := 0\<rparr>
                                      else c1\<lparr>stale_pages := stale_pages c1 + 1\<rparr>)
                               in if target_count > 0 \<and> int (total_count c2) \<ge> target_count then
                                    (Break, c2, s1)
                                  else if int (stale_pages c2) \<ge> max_stale_pages then
                                    (Break, c2, s1)
                                  else if 2 * length new_posts < length items then
                                    (let rs = randint rng 0 (max target_count 100000) s1
                                     in (Continue, c2\<lparr>offset := fst rs\<rparr>, snd rs))
                                  else (Continue, c2\<lparr>offset := offset c2 + 100\<rparr>, s1))))))"

fun posts_loop ::
  "nat \<Rightarrow> server \<Rightarrow> (nat \<Rightarrow> nat) \<Rightarrow> int \<Rightarrow> int \<Rightarrow> collector \<Rightarrow> client
     \<Rightarrow> (error + nat) option \<times> collector \<times> client" where
  "posts_loop 0 srv rng target_count max_stale_pages c s = (None, c, s)"
| "posts_loop (Suc fuel) srv rng target_count max_stale_pages c s =
     (case posts_pass srv rng target_count max_stale_pages c s of
        (Continue, c', s') \<Rightarrow> posts_loop fuel srv rng target_count max_stale_pages c' s'
      | (Break, c', s') \<Rightarrow> (Some (Inr (total_count c')), c', s')
      | (Raise e, c', s') \<Rightarrow> (Some (Inl e), c', s'))"

definition fetch_posts_streaming ::
  "nat \<Rightarrow> server \<Rightarrow> (nat \<Rightarrow> nat) \<Rightarrow> int \<Rightarrow> int \<Rightarrow> client
     \<Rightarrow> (error + nat) option \<times> collector \<times> client" where
  "fetch_posts_streaming fuel srv rng target_count max_stale_pages s =
     posts_loop fuel srv rng target_count max_stale_pages init_collector s"

section \<open>Auxiliary notions for the statements\<close>

text \<open>A reply with status 429.\<close>

fun is_429 :: "outcome \<Rightarrow> bool" where
  "is_429 (Responded r) = (status_code r = 429)"
| "is_429 TimedOut = False"
| "is_429 Broken = False"

text \<open>
  The state in which \<^verbatim>\<open>_request\<close> classifies the reply to an attempt started in \<open>s\<close>: the
  throttle has run, the request is counted and issued, and the call has taken its time.
\<close>

definition arrived :: "server \<Rightarrow> request \<Rightarrow> client \<Rightarrow> client" where
  "arrived srv q s =
     (enforce_throttle s)\<lparr>request_count := request_count s + 1, issued := issued s @ [q],
        clock := clock (enforce_throttle s) + snd (srv (request_count s + 1) q)\<rparr>"

text \<open>
  The state in which attempt \<open>a + k\<close> of \<^verbatim>\<open>_request\<close> starts when the \<open>k\<close> attempts
  \<open>a, ..., a + k - 1\<close> before it, the first of them started in \<open>s\<close>, were each answered
  with a 429 that is retried: each of them arrives, runs the 429 handler and then sleeps
  its backoff \<^verbatim>\<open>base_delay * (2 ** attempt)\<close>.
\<close>

fun after_429s :: "server \<Rightarrow> request \<Rightarrow> nat \<Rightarrow> nat \<Rightarrow> client \<Rightarrow> client" where
  "after_429s srv q a 0 s = s"
| "after_429s srv q a (Suc k) s =
     after_429s srv q (Suc a) k
       (sleep_for (base_delay s * 2 ^ a) (snd (on_429 (arrived srv q s))))"

text \<open>
  A backend that answers every request, at every offset, with status 200 and a payload
  whose listing field \<open>field\<close> is the same list \<open>pg\<close> of records.
\<close>

definition serves_page :: "server \<Rightarrow> string \<Rightarrow> json list \<Rightarrow> bool" where
  "serves_page srv field pg =
     (\<forall>n q. \<exists>resp data.
        fst (srv n q) = Responded resp \<and> status_code resp = 200 \<and> body resp = Some data
        \<and> dict_get data field (JList []) = Inr (JList pg))"

text \<open>The identity keys of a batch handed to the callback, in order.\<close>

fun keys_of :: "string \<Rightarrow> json list \<Rightarrow> key list" where
  "keys_of field [] = []"
| "keys_of field (r # rs) =
     (case record_key field r of
        Inl e \<Rightarrow> keys_of field rs
      | Inr k \<Rightarrow> k # keys_of field rs)"

section \<open>Basic facts about the executor\<close>

lemma sleep_for_fields [simp]:
  "max_retries (sleep_for d s) = max_retries s"
  "base_delay (sleep_for d s) = base_delay s"
  "request_count (sleep_for d s) = request_count s"
  "consecutive_429s (sleep_for d s) = consecutive_429s s"
  "cooldown_until (sleep_for d s) = cooldown_until s"
  "issued (sleep_for d s) = issued s"
  "request_timestamps (sleep_for d s) = request_timestamps s"
  "rand_calls (sleep_for d s) = rand_calls s"
  "clock (sleep_for d s) = clock s + d"
  "sleeps (sleep_for d s) = sleeps s @ [d]"
  by (simp_all add: sleep_for_def)

lemma enforce_throttle_fields [simp]:
  "max_retries (enforce_throttle s) = max_retries s"
  "base_delay (enforce_throttle s) = base_delay s"
  "request_count (enforce_throttle s) = request_count s"
  "consecutive_429s (enforce_throttle s) = consecutive_429s s"
  "cooldown_until (enforce_throttle s) = cooldown_until s"
  "issued (enforce_throttle s) = issued s"
  "rand_calls (enforce_throttle s) = rand_calls s"
  by (simp_all add: enforce_throttle_def trim_window_def sleep_for_def Let_def)

lemma on_429_fields [simp]:
  "max_retries (snd (on_429 s)) = max_retries s"
  "base_delay (snd (on_429 s)) = base_delay s"
  "request_count (snd (on_429 s)) = request_count s"
  "consecutive_429s (snd (on_429 s)) = consecutive_429s s + 1"
  "issued (snd (on_429 s)) = issued s"
  "sleeps (snd (on_429 s)) = sleeps s"
  "clock (snd (on_429 s)) = clock s"
  "request_timestamps (snd (on_429 s)) = request_timestamps s"
  "rand_calls (snd (on_429 s)) = rand_calls s"
  by (simp_all add: on_429_def Let_def)

lemma on_429_fst:
  "fst (on_429 s) =
     (if 9 \<le> consecutive_429s s
      then Inl (RateLimitError (Consecutive429s (consecutive_429s s + 1) (request_count s)))
      else Inr ())"
  by (simp add: on_429_def Let_def)

lemma on_429_fatal:
  "9 \<le> consecutive_429s s \<Longrightarrow> snd (on_429 s) = s\<lparr>consecutive_429s := consecutive_429s s + 1\<rparr>"
  by (simp add: on_429_def Let_def)

lemma on_success_fields [simp]:
  "max_retries (on_success s) = max_retries s"
  "base_delay (on_success s) = base_delay s"
  "request_count (on_success s) = request_count s"
  "consecutive_429s (on_success s) = 0"
  "cooldown_until (on_success s) = cooldown_until s"
  "issued (on_success s) = issued s"
  "sleeps (on_success s) = sleeps s"
  "clock (on_success s) = clock s"
  "request_timestamps (on_success s) = request_timestamps s @ [clock s]"
  "rand_calls (on_success s) = rand_calls s"
  by (simp_all add: on_success_def)

lemma backoff_ok:
  "0 \<le> base_delay s \<Longrightarrow> backoff a s = Inr (sleep_for (base_delay s * 2 ^ a) s)"
  by (simp add: backoff_def py_sleep_def not_less)

lemma arrived_fields [simp]:
  "max_retries (arrived srv q s) = max_retries s"
  "base_delay (arrived srv q s) = base_delay s"
  "request_count (arrived srv q s) = request_count s + 1"
  "consecutive_429s (arrived srv q s) = consecutive_429s s"
  "cooldown_until (arrived srv q s) = cooldown_until s"
  "issued (arrived srv q s) = issued s @ [q]"
  "rand_calls (arrived srv q s) = rand_calls s"
  "sleeps (arrived srv q s) = sleeps (enforce_throttle s)"
  "request_timestamps (arrived srv q s) = request_timestamps (enforce_throttle s)"
  "clock (arrived srv q s) = clock (enforce_throttle s) + snd (srv (request_count s + 1) q)"
  by (simp_all add: arrived_def)

text \<open>One pass of the loop of \<^verbatim>\<open>_request\<close>, in terms of the state at arrival.\<close>

lemma request_loop_Cons:
  "request_loop srv q (attempt # rest) s =
     (case fst (srv (request_count s + 1) q) of
           TimedOut \<Rightarrow>
             if int attempt < max_retries s then
               (case backoff attempt (arrived srv q s) of
                  Inl e \<Rightarrow> (Inl e, arrived srv q s)
                | Inr s4 \<Rightarrow> request_loop srv q rest s4)
             else (Inl TimeoutError, arrived srv q s)
         | Broken \<Rightarrow> (Inl ConnectionError, arrived srv q s)
         | Responded r \<Rightarrow>
             if status_code r = 429 then
               (case fst (on_429 (arrived srv q s)) of
                  Inl e \<Rightarrow> (Inl e, snd (on_429 (arrived srv q s)))
                | Inr u \<Rightarrow>
                    if int attempt < max_retries s then
                      (case backoff attempt (snd (on_429 (arrived srv q s))) of
                         Inl e \<Rightarrow> (Inl e, snd (on_429 (arrived srv q s)))
                       | Inr s5 \<Rightarrow> request_loop srv q rest s5)
                    else (Inl (RateLimitError (RetriesExhausted (max_retries s))),
                          snd (on_429 (arrived srv q s))))
             else if status_code r \<ge> 500 then
               (if int attempt < max_retries s then
                  (case backoff attempt (arrived srv q s) of
                     Inl e \<Rightarrow> (Inl e, arrived srv q s)
                   | Inr s4 \<Rightarrow> request_loop srv q rest s4)
                else (Inr r, on_success (arrived srv q s)))
             else (Inr r, on_success (arrived srv q s)))"
proof -
  have a: "(enforce_throttle s)\<lparr>request_count := Suc (request_count s), issued := issued s @ [q],
        clock := clock (enforce_throttle s) + snd (srv (Suc (request_count s)) q)\<rparr> = arrived srv q s"
    by (simp add: arrived_def)
  obtain e s4 where o: "on_429 (arrived srv q s) = (e, s4)"
    by (cases "on_429 (arrived srv q s)")
  have m: "max_retries s4 = max_retries s"
    using on_429_fields(1) [of "arrived srv q s"] o by simp
  show ?thesis
    by (cases "fst (srv (Suc (request_count s)) q)"; cases e)
       (simp_all add: Let_def a o m split: sum.split)
qed

declare request_loop.simps(2) [simp del]

section \<open>Cooldown escalation\<close>

text \<open>
  Claim C6. When the 429 handler runs for the \<open>n\<close>-th consecutive 429 and \<open>3 \<le> n \<le> 9\<close>, it
  returns normally and sets the cooldown deadline to the current time plus
  \<open>min (30 * 2 ^ (n - 3)) 300\<close> seconds, that is 30, 60, 120, 240, 300, 300, 300; for
  \<open>n < 3\<close> it returns normally and leaves the deadline as it was.
\<close>

theorem cooldown_escalation:
  assumes n: "consecutive_429s s + 1 = n"
  shows "(3 \<le> n \<and> n \<le> 9 \<longrightarrow>
            fst (on_429 s) = Inr ()
          \<and> cooldown_until (snd (on_429 s)) = clock s + real (min (30 * 2 ^ (n - 3)) 300)
          \<and> real (min (30 * 2 ^ (n - 3)) 300) = [30, 60, 120, 240, 300, 300, 300] ! (n - 3))
       \<and> (n < 3 \<longrightarrow>
            fst (on_429 s) = Inr ()
          \<and> cooldown_until (snd (on_429 s)) = cooldown_until s)"
proof -
  have low: "n < 3 \<Longrightarrow> fst (on_429 s) = Inr () \<and> cooldown_until (snd (on_429 s)) = cooldown_until s"
    using n by (simp add: on_429_def Let_def)
  have mid: "fst (on_429 s) = Inr ()
          \<and> cooldown_until (snd (on_429 s)) = clock s + real (min (30 * 2 ^ (n - 3)) 300)"
    if "3 \<le> n" "n \<le> 9"
    using n that by (simp add: on_429_def Let_def)
  have tab: "real (min (30 * 2 ^ (n - 3)) 300) = [30, 60, 120, 240, 300, 300, 300] ! (n - 3)"
    if "3 \<le> n" "n \<le> 9"
  proof -
    from that have "n = 3 \<or> n = 4 \<or> n = 5 \<or> n = 6 \<or> n = 7 \<or> n = 8 \<or> n = 9" by arith
    then show ?thesis by (elim disjE) simp_all
  qed
  show ?thesis using low mid tab by blast
qed

theorem cooldown_escalation_witness:
  "cooldown_until (snd (on_429 ((new_client 5 2 1000)\<lparr>consecutive_429s := 4\<rparr>))) = 1120
   \<and> cooldown_until (snd (on_429 ((new_client 5 2 1000)\<lparr>consecutive_429s := 1\<rparr>))) = 0"
  using cooldown_escalation [of "(new_client 5 2 1000)\<lparr>consecutive_429s := 4\<rparr>" 5]
        cooldown_escalation [of "(new_client 5 2 1000)\<lparr>consecutive_429s := 1\<rparr>" 2]
  by (simp add: new_client_def)

section \<open>The fatal abort\<close>

lemma after_429s_fields [simp]:
  "max_retries (after_429s srv q a k s) = max_retries s"
  "base_delay (after_429s srv q a k s) = base_delay s"
  "request_count (after_429s srv q a k s) = request_count s + k"
  "consecutive_429s (after_429s srv q a k s) = consecutive_429s s + k"
  "issued (after_429s srv q a k s) = issued s @ replicate k q"
  by (induction k arbitrary: a s) (simp_all add: replicate_app_Cons_same)

text \<open>The last thing that happens on the way to such a state is a backoff sleep.\<close>

lemma after_429s_Suc_last:
  "after_429s srv q a (Suc k) s =
     sleep_for (base_delay s * 2 ^ (a + k))
       (snd (on_429 (arrived srv q (after_429s srv q a k s))))"
proof (induction k arbitrary: a s)
  case 0
  show ?case by simp
next
  case (Suc k)
  let ?s1 = "sleep_for (base_delay s * 2 ^ a) (snd (on_429 (arrived srv q s)))"
  have "after_429s srv q a (Suc (Suc k)) s = after_429s srv q (Suc a) (Suc k) ?s1"
    by simp
  also have "\<dots> = sleep_for (base_delay ?s1 * 2 ^ (Suc a + k))
                     (snd (on_429 (arrived srv q (after_429s srv q (Suc a) k ?s1))))"
    by (rule Suc.IH)
  finally show ?case by simp
qed

lemma request_loop_429s:
  assumes "\<forall>n. request_count s < n \<and> n \<le> request_count s + k \<longrightarrow> is_429 (fst (srv n q))"
      and "consecutive_429s s + k = 10" and "0 < k" and "0 \<le> base_delay s"
      and "int a + int k \<le> max_retries s + 1"
  shows "request_loop srv q [a ..< nat (max_retries s + 1)] s
           = (Inl (RateLimitError (Consecutive429s 10 (request_count s + k))),
              (arrived srv q (after_429s srv q a (k - 1) s))\<lparr>consecutive_429s := 10\<rparr>)"
  using assms
proof (induction k arbitrary: s a)
  case 0
  then show ?case by simp
next
  case (Suc k)
  let ?b = "nat (max_retries s + 1)"
  from Suc.prems(5) have lt: "a < ?b" by linarith
  then have upt: "[a ..< ?b] = a # [Suc a ..< ?b]" by (rule upt_conv_Cons)
  from Suc.prems(1) have "is_429 (fst (srv (request_count s + 1) q))" by simp
  then obtain r where r: "fst (srv (request_count s + 1) q) = Responded r" "status_code r = 429"
    by (cases "fst (srv (request_count s + 1) q)") auto
  show ?case
  proof (cases k)
    case 0
    with Suc.prems(2) have c9: "consecutive_429s s = 9" by simp
    have "request_loop srv q [a ..< ?b] s
            = (Inl (RateLimitError (Consecutive429s 10 (request_count s + 1))),
               (arrived srv q s)\<lparr>consecutive_429s := 10\<rparr>)"
      using c9 r by (simp add: upt request_loop_Cons on_429_fst on_429_fatal del: upt_Suc)
    then show ?thesis using 0 by simp
  next
    case (Suc j)
    with Suc.prems(2) have c: "consecutive_429s s < 9" by simp
    from Suc Suc.prems(5) have am: "int a < max_retries s" by linarith
    let ?s5 = "sleep_for (base_delay s * 2 ^ a) (snd (on_429 (arrived srv q s)))"
    have step: "request_loop srv q [a ..< ?b] s = request_loop srv q [Suc a ..< ?b] ?s5"
      using c r am Suc.prems(4)
      by (simp add: upt request_loop_Cons on_429_fst backoff_ok del: upt_Suc)
    have IH: "request_loop srv q [Suc a ..< nat (max_retries ?s5 + 1)] ?s5
           = (Inl (RateLimitError (Consecutive429s 10 (request_count ?s5 + k))),
              (arrived srv q (after_429s srv q (Suc a) (k - 1) ?s5))\<lparr>consecutive_429s := 10\<rparr>)"
    proof (rule Suc.IH)
      show "\<forall>n. request_count ?s5 < n \<and> n \<le> request_count ?s5 + k \<longrightarrow> is_429 (fst (srv n q))"
        using Suc.prems(1) by simp
      show "consecutive_429s ?s5 + k = 10" using Suc.prems(2) by simp
      show "0 < k" using Suc by simp
      show "0 \<le> base_delay ?s5" using Suc.prems(4) by simp
      show "int (Suc a) + int k \<le> max_retries ?s5 + 1" using Suc.prems(5) by simp
    qed
    show ?thesis using IH Suc by (simp add: step)
  qed
qed

text \<open>
  Claim C5. In a state that has seen \<open>c < 10\<close> consecutive 429 responses since the last
  success, a call whose next \<open>10 - c\<close> attempts are all answered with 429 (the retry
  budget allowing that many attempts) fails with the rate-limit error of the 429 handler,
  carrying the count 10 and the total request count of the session. Exactly \<open>10 - c\<close>
  requests are issued. The final state is determined: it is the state in which the reply
  to the last attempt arrived, that attempt having started in the state reached after the
  \<open>9 - c\<close> retried attempts before it, with nothing but the counter changed. So its sleep
  log ends with the sleeps of the throttle that admitted the tenth attempt, and its clock
  reads the time at which the tenth 429 arrived: no backoff sleep and no further attempt
  follow it.
\<close>

theorem fatal_on_tenth_429:
  assumes "\<forall>n. request_count s < n \<and> n \<le> request_count s + (10 - consecutive_429s s)
              \<longrightarrow> is_429 (fst (srv n q))"
      and "consecutive_429s s < 10" and "0 \<le> base_delay s"
      and "9 - int (consecutive_429s s) \<le> max_retries s"
  shows "fst (request srv q s)
           = Inl (RateLimitError
                    (Consecutive429s 10 (request_count s + (10 - consecutive_429s s))))
       \<and> issued (snd (request srv q s)) = issued s @ replicate (10 - consecutive_429s s) q
       \<and> request_count (snd (request srv q s)) = request_count s + (10 - consecutive_429s s)
       \<and> snd (request srv q s)
           = (arrived srv q (after_429s srv q 0 (9 - consecutive_429s s) s))
               \<lparr>consecutive_429s := 10\<rparr>
       \<and> sleeps (snd (request srv q s))
           = sleeps (enforce_throttle (after_429s srv q 0 (9 - consecutive_429s s) s))
       \<and> clock (snd (request srv q s))
           = clock (enforce_throttle (after_429s srv q 0 (9 - consecutive_429s s) s))
             + snd (srv (request_count s + (10 - consecutive_429s s)) q)"
proof -
  have run: "request srv q s
           = (Inl (RateLimitError
                     (Consecutive429s 10 (request_count s + (10 - consecutive_429s s)))),
              (arrived srv q (after_429s srv q 0 (10 - consecutive_429s s - 1) s))
                \<lparr>consecutive_429s := 10\<rparr>)"
    unfolding request_def
  proof (rule request_loop_429s)
    show "\<forall>n. request_count s < n \<and> n \<le> request_count s + (10 - consecutive_429s s)
              \<longrightarrow> is_429 (fst (srv n q))"
      by (rule assms(1))
    show "consecutive_429s s + (10 - consecutive_429s s) = 10" using assms(2) by simp
    show "0 < 10 - consecutive_429s s" using assms(2) by simp
    show "0 \<le> base_delay s" by (rule assms(3))
    show "int 0 + int (10 - consecutive_429s s) \<le> max_retries s + 1" using assms(2,4) by simp
  qed
  have k: "10 - consecutive_429s s - 1 = 9 - consecutive_429s s" by simp
  have n: "Suc (request_count s + (9 - consecutive_429s s))
             = request_count s + (10 - consecutive_429s s)"
    using assms(2) by simp
  have e: "10 - consecutive_429s s = Suc (9 - consecutive_429s s)"
    using assms(2) by simp
  have rep: "replicate (9 - consecutive_429s s) q @ [q] = replicate (10 - consecutive_429s s) q"
    unfolding e by (simp add: replicate_append_same)
  show ?thesis
    unfolding run k by (simp add: n rep)
qed

theorem fatal_on_tenth_429_witness:
  "fst (request (\<lambda>n q. (Responded \<lparr>status_code = 429, body = None\<rparr>, 1)) GetStats
          ((new_client 5 2 1000)\<lparr>consecutive_429s := 6, request_count := 6\<rparr>))
     = Inl (RateLimitError (Consecutive429s 10 10))
   \<and> issued (snd (request (\<lambda>n q. (Responded \<lparr>status_code = 429, body = None\<rparr>, 1)) GetStats
          ((new_client 5 2 1000)\<lparr>consecutive_429s := 6, request_count := 6\<rparr>)))
     = [GetStats, GetStats, GetStats, GetStats]
   \<and> sleeps (snd (request (\<lambda>n q. (Responded \<lparr>status_code = 429, body = None\<rparr>, 1)) GetStats
          ((new_client 5 2 1000)\<lparr>consecutive_429s := 6, request_count := 6\<rparr>)))
     = [2, 298, 4, 296, 8, 292]
   \<and> clock (snd (request (\<lambda>n q. (Responded \<lparr>status_code = 429, body = None\<rparr>, 1)) GetStats
          ((new_client 5 2 1000)\<lparr>consecutive_429s := 6, request_count := 6\<rparr>)))
     = 1904"
  using fatal_on_tenth_429 [of "(new_client 5 2 1000)\<lparr>consecutive_429s := 6, request_count := 6\<rparr>"
          "\<lambda>n q. (Responded \<lparr>status_code = 429, body = None\<rparr>, 1)" GetStats]
  by (simp add: new_client_def numeral_eq_Suc enforce_throttle_def trim_window_def
        sleep_for_def arrived_def on_429_def Let_def)

section \<open>The sliding-window throttle\<close>

lemma dropWhile_sorted_filter:
  "sorted xs \<Longrightarrow> dropWhile (\<lambda>t. t < c) xs = filter (\<lambda>t. c \<le> t) (xs :: real list)"
proof (induction xs)
  case Nil
  then show ?case by simp
next
  case (Cons x xs)
  show ?case
  proof (cases "x < c")
    case True
    with Cons show ?thesis by simp
  next
    case False
    with Cons.prems have "\<forall>y \<in> set xs. c \<le> y" by auto
    then have "filter (\<lambda>t. c \<le> t) xs = xs" by simp
    with False show ?thesis by simp
  qed
qed

lemma trim_window_fields [simp]:
  "clock (trim_window s) = clock s"
  "sleeps (trim_window s) = sleeps s"
  "cooldown_until (trim_window s) = cooldown_until s"
  "request_timestamps (trim_window s)
     = dropWhile (\<lambda>t. t < clock s - 60) (request_timestamps s)"
  by (simp_all add: trim_window_def)

lemma enforce_throttle_quiet:
  assumes "cooldown_until s \<le> clock s"
  shows "enforce_throttle s =
     (if 90 \<le> length (request_timestamps (trim_window s)) then
        (if 0 < hd (request_timestamps (trim_window s)) + 60 - clock s + 1 / 10
         then sleep_for (hd (request_timestamps (trim_window s)) + 60 - clock s + 1 / 10)
                (trim_window s)
         else trim_window s)
      else trim_window s)"
  using assms by (simp add: enforce_throttle_def Let_def not_less)

lemma request_first:
  "0 \<le> max_retries s \<Longrightarrow>
     request srv q s = request_loop srv q (0 # [1 ..< nat (max_retries s + 1)]) s"
  by (simp add: request_def upt_conv_Cons)

text \<open>
  Claim C3, as stated, fails: with 89 successes inside the window the 90th request is
  admitted at once. Here 89 requests succeeded at time 95, the clock reads 100, and the
  next request is answered without any sleep.
\<close>

theorem ninetieth_request_not_delayed:
  "length (request_timestamps
      ((new_client 5 2 100)\<lparr>request_timestamps := replicate 89 95, request_count := 89\<rparr>)) = 89
 \<and> list_all (\<lambda>t. 100 - 60 \<le> t \<and> t \<le> 100) (replicate 89 (95::real))
 \<and> fst (request (\<lambda>n q. (Responded \<lparr>status_code = 200, body = None\<rparr>, 0)) GetStats
         ((new_client 5 2 100)\<lparr>request_timestamps := replicate 89 95, request_count := 89\<rparr>))
      = Inr \<lparr>status_code = 200, body = None\<rparr>
 \<and> sleeps (snd (request (\<lambda>n q. (Responded \<lparr>status_code = 200, body = None\<rparr>, 0)) GetStats
         ((new_client 5 2 100)\<lparr>request_timestamps := replicate 89 95, request_count := 89\<rparr>)))
      = []
 \<and> request_count (snd (request (\<lambda>n q. (Responded \<lparr>status_code = 200, body = None\<rparr>, 0)) GetStats
         ((new_client 5 2 100)\<lparr>request_timestamps := replicate 89 95, request_count := 89\<rparr>)))
      = 90"
  by (simp add: request_first new_client_def request_loop_Cons enforce_throttle_quiet list_all_iff)

text \<open>
  Claim C3, amended. With the window sorted and no cooldown pending: while fewer than 90
  successes lie inside the last 60 seconds, the throttle admits the next request without
  sleeping (so the 90th request, issued after 89 successes, is not delayed); when 90 or
  more lie inside, it sleeps once, until the oldest of them is 60 seconds old plus a
  margin of 0.1 seconds, which is a sleep of at least 0.1 seconds.
\<close>

theorem throttle_at_threshold:
  assumes srt: "sorted (request_timestamps s)" and cd: "cooldown_until s \<le> clock s"
  shows "(length (filter (\<lambda>t. clock s - 60 \<le> t) (request_timestamps s)) < 90 \<longrightarrow>
            sleeps (enforce_throttle s) = sleeps s \<and> clock (enforce_throttle s) = clock s)
       \<and> (90 \<le> length (filter (\<lambda>t. clock s - 60 \<le> t) (request_timestamps s)) \<longrightarrow>
            sleeps (enforce_throttle s)
              = sleeps s @ [hd (filter (\<lambda>t. clock s - 60 \<le> t) (request_timestamps s))
                              + 60 + 1 / 10 - clock s]
          \<and> clock (enforce_throttle s)
              = hd (filter (\<lambda>t. clock s - 60 \<le> t) (request_timestamps s)) + 60 + 1 / 10
          \<and> 1 / 10 \<le> hd (filter (\<lambda>t. clock s - 60 \<le> t) (request_timestamps s))
                         + 60 + 1 / 10 - clock s)"
proof -
  let ?w = "filter (\<lambda>t. clock s - 60 \<le> t) (request_timestamps s)"
  have w: "dropWhile (\<lambda>t. t < clock s - 60) (request_timestamps s) = ?w"
    using srt by (rule dropWhile_sorted_filter)
  have old: "clock s - 60 \<le> hd ?w" if "90 \<le> length ?w"
  proof -
    from that have "?w \<noteq> []" by auto
    then have "hd ?w \<in> set ?w" by (rule hd_in_set)
    then show ?thesis by simp
  qed
  show ?thesis
    using old by (auto simp add: enforce_throttle_quiet [OF cd] w)
qed

theorem throttle_at_threshold_witness:
  "sleeps (enforce_throttle ((new_client 5 2 100)\<lparr>request_timestamps := replicate 89 95\<rparr>)) = []
 \<and> sleeps (enforce_throttle ((new_client 5 2 100)\<lparr>request_timestamps := replicate 90 95\<rparr>))
     = [551 / 10]"
  using throttle_at_threshold [of "(new_client 5 2 100)\<lparr>request_timestamps := replicate 89 95\<rparr>"]
        throttle_at_threshold [of "(new_client 5 2 100)\<lparr>request_timestamps := replicate 90 95\<rparr>"]
  by (simp add: new_client_def)

section \<open>Mutation of the window\<close>

lemma enforce_throttle_suffix:
  "suffix (request_timestamps (enforce_throttle s)) (request_timestamps s)"
  by (simp add: enforce_throttle_def trim_window_def Let_def suffix_dropWhile)

lemma backoff_window:
  "backoff a s = Inr s' \<Longrightarrow> request_timestamps s' = request_timestamps s"
  by (auto simp add: backoff_def py_sleep_def split: if_splits)

lemma request_loop_window:
  "case request_loop srv q as s of
     (Inl e, s') \<Rightarrow> suffix (request_timestamps s') (request_timestamps s)
   | (Inr r, s') \<Rightarrow>
       (\<exists>ts. suffix ts (request_timestamps s) \<and> request_timestamps s' = ts @ [clock s'])"
proof (induction as arbitrary: s)
  case Nil
  show ?case by simp
next
  case (Cons a as)
  let ?A = "arrived srv q s"
  have A: "suffix (request_timestamps ?A) (request_timestamps s)"
    by (simp add: enforce_throttle_suffix)
  have rec: "case request_loop srv q as s4 of
     (Inl e, s') \<Rightarrow> suffix (request_timestamps s') (request_timestamps s)
   | (Inr r, s') \<Rightarrow>
       (\<exists>ts. suffix ts (request_timestamps s) \<and> request_timestamps s' = ts @ [clock s'])"
    if "request_timestamps s4 = request_timestamps ?A" for s4
  proof -
    from that A have le: "suffix (request_timestamps s4) (request_timestamps s)" by simp
    show ?thesis
      using Cons.IH [of s4] le
      by (auto split: prod.splits sum.splits intro: suffix_order.trans)
  qed
  have ok: "\<exists>ts. suffix ts (request_timestamps s)
              \<and> request_timestamps (on_success ?A) = ts @ [clock (on_success ?A)]"
    using A by auto
  have bo: "case (case backoff a s3 of Inl e \<Rightarrow> (Inl e, s3) | Inr s4 \<Rightarrow> request_loop srv q as s4) of
     (Inl e, s') \<Rightarrow> suffix (request_timestamps s') (request_timestamps s)
   | (Inr r, s') \<Rightarrow>
       (\<exists>ts. suffix ts (request_timestamps s) \<and> request_timestamps s' = ts @ [clock s'])"
    if "request_timestamps s3 = request_timestamps ?A" for s3
  proof (cases "backoff a s3")
    case (Inl e)
    then show ?thesis using that A by simp
  next
    case (Inr s4)
    then have "request_timestamps s4 = request_timestamps ?A"
      using backoff_window that by simp
    then show ?thesis using rec Inr by simp
  qed
  show ?case
  proof (cases "fst (srv (request_count s + 1) q)")
    case TimedOut
    then show ?thesis using bo [of ?A] A by (simp add: request_loop_Cons)
  next
    case Broken
    then show ?thesis using A by (simp add: request_loop_Cons)
  next
    case (Responded r)
    show ?thesis
    proof (cases "status_code r = 429")
      case True
      have w: "request_timestamps (snd (on_429 ?A)) = request_timestamps ?A" by simp
      show ?thesis
        using Responded True bo [OF w] A
        by (cases "fst (on_429 ?A)") (simp_all add: request_loop_Cons)
    next
      case False
      then show ?thesis
        using Responded bo [of ?A] ok by (simp add: request_loop_Cons)
    qed
  qed
qed

text \<open>
  Claim C4, amended. On every path of \<^verbatim>\<open>_request\<close> that raises (timeout exhausted, 429
  exhausted, the fatal abort, a transport error, a negative backoff, the statement after
  the loop) no timestamp is appended: the window afterwards is a suffix of the window
  before, entries being removed at the front by the trimming only. On every path that
  returns a response, the final exhausted 5xx attempt included, exactly one timestamp is
  appended to such a suffix: the time of return.
\<close>

theorem window_appended_on_return_only:
  "case request srv q s of
     (Inl e, s') \<Rightarrow> suffix (request_timestamps s') (request_timestamps s)
   | (Inr r, s') \<Rightarrow>
       (\<exists>ts. suffix ts (request_timestamps s) \<and> request_timestamps s' = ts @ [clock s'])"
  unfolding request_def by (rule request_loop_window)

lemma request_step:
  "request_loop srv q [a ..< b] s =
     (if a < b then request_loop srv q (a # [Suc a ..< b]) s
      else (Inl (RateLimitError MaxRetriesExceeded), s))"
  by (simp add: upt_conv_Cons)

text \<open>
  Claim C4, as stated, fails on the last path it lists: with one retry and a server that
  answers 500 twice, the second response is returned and its time enters the empty window.
\<close>

theorem exhausted_5xx_appends_timestamp:
  "fst (request (\<lambda>n q. (Responded \<lparr>status_code = 500, body = None\<rparr>, 0)) GetStats
          (new_client 1 1 1000))
     = Inr \<lparr>status_code = 500, body = None\<rparr>
 \<and> request_timestamps (new_client 1 1 1000) = []
 \<and> request_timestamps
      (snd (request (\<lambda>n q. (Responded \<lparr>status_code = 500, body = None\<rparr>, 0)) GetStats
          (new_client 1 1 1000)))
     = [1001]
 \<and> length (issued
      (snd (request (\<lambda>n q. (Responded \<lparr>status_code = 500, body = None\<rparr>, 0)) GetStats
          (new_client 1 1 1000)))) = 2"
  by (simp add: request_first new_client_def request_loop_Cons request_step
       enforce_throttle_quiet backoff_def py_sleep_def sleep_for_def arrived_def on_success_def
       trim_window_def Let_def)

section \<open>Three 429 responses, then a success\<close>

lemma throttle_idle:
  assumes "cooldown_until s \<le> clock s" and "length (request_timestamps s) < 90"
  shows "enforce_throttle s = trim_window s"
proof -
  have "length (dropWhile (\<lambda>t. t < clock s - 60) (request_timestamps s))
          \<le> length (request_timestamps s)"
    by (rule length_dropWhile_le)
  with assms(2) have "\<not> 90 \<le> length (request_timestamps (trim_window s))" by simp
  then show ?thesis by (simp only: enforce_throttle_quiet [OF assms(1)] if_False)
qed

lemma throttle_cooling:
  assumes "clock s < cooldown_until s" and "length (request_timestamps s) < 90"
  shows "enforce_throttle s = trim_window (sleep_for (cooldown_until s - clock s) s)"
proof -
  let ?s1 = "sleep_for (cooldown_until s - clock s) s"
  have "length (dropWhile (\<lambda>t. t < clock ?s1 - 60) (request_timestamps ?s1))
          \<le> length (request_timestamps ?s1)"
    by (rule length_dropWhile_le)
  with assms(2) have "\<not> 90 \<le> length (request_timestamps (trim_window ?s1))" by simp
  then show ?thesis using assms(1) by (simp add: enforce_throttle_def Let_def)
qed

lemma trim_window_length:
  "length (request_timestamps (trim_window s)) \<le> length (request_timestamps s)"
  by (simp add: length_dropWhile_le)

lemma trim_window_other [simp]:
  "max_retries (trim_window s) = max_retries s"
  "base_delay (trim_window s) = base_delay s"
  "request_count (trim_window s) = request_count s"
  "consecutive_429s (trim_window s) = consecutive_429s s"
  "issued (trim_window s) = issued s"
  "rand_calls (trim_window s) = rand_calls s"
  by (simp_all add: trim_window_def)

lemma on_429_cooldown_until:
  "cooldown_until (snd (on_429 s)) =
     (if 2 \<le> consecutive_429s s \<and> consecutive_429s s < 9
      then clock s + real (min (30 * 2 ^ (consecutive_429s s - 2)) 300)
      else cooldown_until s)"
  by (simp add: on_429_def Let_def)

lemma request_loop_429_retry:
  assumes "is_429 (fst (srv (request_count s + 1) q))" and "consecutive_429s s < 9"
      and "int a < max_retries s" and "0 \<le> base_delay s"
  shows "request_loop srv q (a # rest) s
           = request_loop srv q rest
               (sleep_for (base_delay s * 2 ^ a) (snd (on_429 (arrived srv q s))))"
proof -
  from assms(1) obtain r where "fst (srv (request_count s + 1) q) = Responded r"
      and "status_code r = 429"
    by (cases "fst (srv (request_count s + 1) q)") auto
  then show ?thesis
    using assms(2-4) by (simp add: request_loop_Cons on_429_fst backoff_ok)
qed

text \<open>
  Claim C7, amended. With \<^verbatim>\<open>base_delay = 2.0\<close> and \<^verbatim>\<open>max_retries = 5\<close>, starting with
  no consecutive 429 counted, no cooldown pending and fewer than 90 entries in the window,
  if the endpoint answers 429 on the first three attempts and 200 on the fourth, the
  executor makes exactly four attempts and returns the fourth response with the counter
  at 0. Its sleeps are the backoff sleeps of 2, 4 and 8 seconds and then, before the
  fourth attempt, a wait of 22 seconds: the rest of the 30 second cooldown that the third
  429 starts.
\<close>

theorem three_429s_then_success:
  assumes cfg: "max_retries s = 5" "base_delay s = 2"
      and fresh: "consecutive_429s s = 0" "cooldown_until s \<le> clock s"
                 "length (request_timestamps s) < 90"
      and r1: "is_429 (fst (srv (request_count s + 1) q))"
      and r2: "is_429 (fst (srv (request_count s + 2) q))"
      and r3: "is_429 (fst (srv (request_count s + 3) q))"
      and r4: "fst (srv (request_count s + 4) q) = Responded r" "status_code r = 200"
      and dur: "\<forall>n. 0 \<le> snd (srv n q)"
  shows "fst (request srv q s) = Inr r
       \<and> issued (snd (request srv q s)) = issued s @ [q, q, q, q]
       \<and> request_count (snd (request srv q s)) = request_count s + 4
       \<and> sleeps (snd (request srv q s)) = sleeps s @ [2, 4, 8, 22]
       \<and> consecutive_429s (snd (request srv q s)) = 0"
proof -
  define s1 where "s1 = sleep_for (base_delay s * 2 ^ 0) (snd (on_429 (arrived srv q s)))"
  define s2 where "s2 = sleep_for (base_delay s1 * 2 ^ 1) (snd (on_429 (arrived srv q s1)))"
  define s3 where "s3 = sleep_for (base_delay s2 * 2 ^ 2) (snd (on_429 (arrived srv q s2)))"
  have d: "0 \<le> snd (srv n q)" for n using dur by simp
  have t0: "enforce_throttle s = trim_window s"
    using fresh by (intro throttle_idle)
  have p1: "max_retries s1 = 5" "base_delay s1 = 2" "consecutive_429s s1 = 1"
      "request_count s1 = request_count s + 1" "issued s1 = issued s @ [q]"
      "sleeps s1 = sleeps s @ [2]"
    by (simp_all add: s1_def cfg fresh t0)
  have c1: "cooldown_until s1 \<le> clock s1"
    using fresh(2) d [of "request_count s + 1"]
    by (simp add: s1_def cfg fresh(1) on_429_cooldown_until t0)
  have l1: "length (request_timestamps s1) < 90"
    using trim_window_length [of s] fresh(3) by (simp add: s1_def t0)
  have t1: "enforce_throttle s1 = trim_window s1"
    using c1 l1 by (intro throttle_idle)
  have p2: "max_retries s2 = 5" "base_delay s2 = 2" "consecutive_429s s2 = 2"
      "request_count s2 = request_count s + 2" "issued s2 = issued s @ [q, q]"
      "sleeps s2 = sleeps s @ [2, 4]"
    by (simp_all add: s2_def p1 t1)
  have c2: "cooldown_until s2 \<le> clock s2"
    using c1 d [of "request_count s + 2"]
    by (simp add: s2_def p1 on_429_cooldown_until t1)
  have l2: "length (request_timestamps s2) < 90"
    using trim_window_length [of s1] l1 by (simp add: s2_def t1)
  have t2: "enforce_throttle s2 = trim_window s2"
    using c2 l2 by (intro throttle_idle)
  have p3: "max_retries s3 = 5" "base_delay s3 = 2" "consecutive_429s s3 = 3"
      "request_count s3 = request_count s + 3" "issued s3 = issued s @ [q, q, q]"
      "sleeps s3 = sleeps s @ [2, 4, 8]"
    by (simp_all add: s3_def p2 t2)
  have c3: "cooldown_until s3 = clock s3 + 22"
    by (simp add: s3_def p2 on_429_cooldown_until t2)
  have l3: "length (request_timestamps s3) < 90"
    using trim_window_length [of s2] l2 by (simp add: s3_def t2)
  have t3: "enforce_throttle s3 = trim_window (sleep_for 22 s3)"
    using throttle_cooling [of s3] c3 l3 by simp
  have e1: "request_loop srv q (0 # [1 ..< 6]) s = request_loop srv q [1 ..< 6] s1"
    unfolding s1_def using r1 cfg fresh by (intro request_loop_429_retry) simp_all
  have e2: "request_loop srv q (1 # [2 ..< 6]) s1 = request_loop srv q [2 ..< 6] s2"
    unfolding s2_def using r2 p1 by (intro request_loop_429_retry) simp_all
  have e3: "request_loop srv q (2 # [3 ..< 6]) s2 = request_loop srv q [3 ..< 6] s3"
    unfolding s3_def using r3 p2 by (intro request_loop_429_retry) (simp_all add: numeral_3_eq_3)
  have r4': "fst (srv (request_count s3 + 1) q) = Responded r"
    using r4(1) by (simp add: p3(4) add.commute)
  have e4: "request_loop srv q (3 # [4 ..< 6]) s3 = (Inr r, on_success (arrived srv q s3))"
    using r4' r4(2) by (simp add: request_loop_Cons)
  have u1: "[1 ..< 6] = 1 # [2 ..< (6::nat)]" by (simp add: upt_conv_Cons)
  have u2: "[2 ..< 6] = 2 # [3 ..< (6::nat)]" by (simp add: upt_conv_Cons)
  have u3: "[3 ..< 6] = 3 # [4 ..< (6::nat)]" by (simp add: upt_conv_Cons)
  have "request srv q s = request_loop srv q (0 # [1 ..< 6]) s"
    by (simp add: request_first cfg)
  also have "\<dots> = request_loop srv q (1 # [2 ..< 6]) s1"
    unfolding e1 by (subst u1) (rule refl)
  also have "\<dots> = request_loop srv q (2 # [3 ..< 6]) s2"
    unfolding e2 by (subst u2) (rule refl)
  also have "\<dots> = request_loop srv q (3 # [4 ..< 6]) s3"
    unfolding e3 by (subst u3) (rule refl)
  also note e4
  finally have run: "request srv q s = (Inr r, on_success (arrived srv q s3))" .
  show ?thesis
    by (simp add: run p3 t3)
qed


theorem three_429s_then_success_witness:
  "fst (request (\<lambda>n q. (Responded \<lparr>status_code = (if n \<le> 3 then 429 else 200), body = None\<rparr>, 1 / 2))
          GetStats (new_client 5 2 1000))
     = Inr \<lparr>status_code = 200, body = None\<rparr>
 \<and> sleeps (snd (request (\<lambda>n q. (Responded \<lparr>status_code = (if n \<le> 3 then 429 else 200), body = None\<rparr>, 1 / 2))
          GetStats (new_client 5 2 1000)))
     = [2, 4, 8, 22]
 \<and> consecutive_429s (snd (request (\<lambda>n q. (Responded \<lparr>status_code = (if n \<le> 3 then 429 else 200), body = None\<rparr>, 1 / 2))
          GetStats (new_client 5 2 1000))) = 0"
  using three_429s_then_success [of "new_client 5 2 1000"
          "\<lambda>n q. (Responded \<lparr>status_code = (if n \<le> 3 then 429 else 200), body = None\<rparr>, 1 / 2)"
          GetStats "\<lparr>status_code = 200, body = None\<rparr>"]
  by (simp add: new_client_def)

text \<open>
  Claim C7, as stated, fails: on a fresh client the sleeps of the scenario are 2, 4, 8 and
  22 seconds, the last one a blocking wait of the throttle before the fourth attempt.
\<close>

theorem cooldown_wait_before_fourth_attempt:
  "fst (request (\<lambda>n q. (Responded \<lparr>status_code = (if n \<le> 3 then 429 else 200), body = None\<rparr>, 0))
          GetStats (new_client 5 2 1000))
     = Inr \<lparr>status_code = 200, body = None\<rparr>
 \<and> length (issued (snd (request (\<lambda>n q. (Responded \<lparr>status_code = (if n \<le> 3 then 429 else 200), body = None\<rparr>, 0))
          GetStats (new_client 5 2 1000)))) = 4
 \<and> sleeps (snd (request (\<lambda>n q. (Responded \<lparr>status_code = (if n \<le> 3 then 429 else 200), body = None\<rparr>, 0))
          GetStats (new_client 5 2 1000)))
     = [2, 4, 8, 22]
 \<and> sleeps (snd (request (\<lambda>n q. (Responded \<lparr>status_code = (if n \<le> 3 then 429 else 200), body = None\<rparr>, 0))
          GetStats (new_client 5 2 1000)))
     \<noteq> [2, 4, 8]"
  by (simp add: request_first new_client_def request_loop_Cons request_step
       enforce_throttle_def backoff_def py_sleep_def sleep_for_def arrived_def on_success_def
       on_429_def trim_window_def Let_def)

section \<open>Not-found handling of the single-record fetches\<close>

lemma request_returns:
  assumes "0 \<le> max_retries s" and "fst (srv (request_count s + 1) q) = Responded r"
      and "status_code r \<noteq> 429" and "status_code r < 500"
  shows "request srv q s = (Inr r, on_success (arrived srv q s))"
  using assms by (simp add: request_first request_loop_Cons)

lemma fetch_post_with_comments_404:
  assumes "0 \<le> max_retries s" and "fst (srv (request_count s + 1) (GetPost post_id)) = Responded r"
      and "status_code r = 404"
  shows "fst (fetch_post_with_comments srv post_id s) = Inr JNull"
  using assms by (simp add: fetch_post_with_comments_def request_returns)

lemma fetch_agent_profile_404:
  assumes "0 \<le> max_retries s"
      and "fst (srv (request_count s + 1) (GetAgentProfile name)) = Responded r"
      and "status_code r = 404"
  shows "fst (fetch_agent_profile srv name s) = Inl (HTTPError 404)"
  using assms
  by (simp add: fetch_agent_profile_def request_returns raise_for_status_def bind_err_def)

lemma success_flag_false:
  assumes "0 \<le> max_retries s" and "status_code r = 200"
      and "body r = Some (JObj kvs)" and "map_of kvs ''success'' = Some (JBool False)"
  shows "fst (srv (request_count s + 1) (GetAgentProfile name)) = Responded r
           \<Longrightarrow> fst (fetch_agent_profile srv name s) = Inr JNull"
    and "fst (srv (request_count s + 1) (GetPost post_id)) = Responded r
           \<Longrightarrow> fst (fetch_post_with_comments srv post_id s) = Inr JNull"
  using assms
  by (simp_all add: fetch_agent_profile_def fetch_post_with_comments_def request_returns
        raise_for_status_def response_json_def bind_err_def)

text \<open>
  Claim C8 holds for \<^verbatim>\<open>fetch_post_with_comments\<close> and for the success flag of both
  functions (the three lemmas above), but not for \<^verbatim>\<open>fetch_agent_profile\<close> on a 404: it
  has no test of the status before \<^verbatim>\<open>raise_for_status\<close>, so the 404 is raised as an HTTP
  error where its sibling returns \<^verbatim>\<open>None\<close>. The code at that input:
\<close>

theorem agent_profile_404_raises:
  "fst (fetch_agent_profile
          (\<lambda>n q. (Responded \<lparr>status_code = 404, body = Some (JObj [(''success'', JBool False)])\<rparr>, 0))
          ''ghost'' (new_client 5 2 1000))
     = Inl (HTTPError 404)
 \<and> fst (fetch_post_with_comments
          (\<lambda>n q. (Responded \<lparr>status_code = 404, body = Some (JObj [(''success'', JBool False)])\<rparr>, 0))
          ''ghost'' (new_client 5 2 1000))
     = Inr JNull"
  by (simp add: fetch_agent_profile_404 fetch_post_with_comments_404 new_client_def)

section \<open>Platform statistics\<close>

text \<open>
  Claim C10. Called with \<^verbatim>\<open>max_retries = 0\<close>, \<^verbatim>\<open>fetch_platform_stats\<close> issues no request and
  raises \<^verbatim>\<open>UnboundLocalError\<close> at its final \<^verbatim>\<open>return stats\<close>; whenever it returns a
  dictionary, \<^verbatim>\<open>max_retries\<close> was at least 1.
\<close>

theorem stats_unbound_without_retries:
  "fetch_platform_stats srv 0 s = (Inl UnboundLocalError, s)
 \<and> (\<forall>v. fst (fetch_platform_stats srv retries s) = Inr v \<longrightarrow> 1 \<le> retries)"
proof -
  have unbound: "fst (fetch_platform_stats srv retries s) = Inl UnboundLocalError"
    if "retries < 1"
    using that by (simp add: fetch_platform_stats_def)
  have "1 \<le> retries" if "fst (fetch_platform_stats srv retries s) = Inr v" for v
  proof (rule ccontr)
    assume "\<not> 1 \<le> retries"
    then have "retries < 1" by simp
    from unbound [OF this] that show False by simp
  qed
  moreover have "fetch_platform_stats srv 0 s = (Inl UnboundLocalError, s)"
    by (simp add: fetch_platform_stats_def)
  ultimately show ?thesis by blast
qed

theorem stats_unbound_without_retries_witness:
  "fst (fetch_platform_stats
          (\<lambda>n q. (Responded \<lparr>status_code = 200,
                     body = Some (JObj [(''agents'', JInt 2), (''submolts'', JInt 5),
                                        (''posts'', JInt 9), (''comments'', JInt 3)])\<rparr>, 0))
          1 (new_client 5 2 1000))
     = Inr (JObj [(''agents'', JInt 2), (''submolts'', JInt 5),
                  (''posts'', JInt 9), (''comments'', JInt 3)])
 \<and> fst (fetch_platform_stats
          (\<lambda>n q. (Responded \<lparr>status_code = 200,
                     body = Some (JObj [(''agents'', JInt 2), (''submolts'', JInt 5),
                                        (''posts'', JInt 9), (''comments'', JInt 3)])\<rparr>, 0))
          0 (new_client 5 2 1000))
     = Inl UnboundLocalError
 \<and> (1::int) \<le> 1"
  using stats_unbound_without_retries [of
          "\<lambda>n q. (Responded \<lparr>status_code = 200,
                     body = Some (JObj [(''agents'', JInt 2), (''submolts'', JInt 5),
                                        (''posts'', JInt 9), (''comments'', JInt 3)])\<rparr>, 0)"
          "new_client 5 2 1000" 1]
  by (simp add: fetch_platform_stats_def request_returns new_client_def
        raise_for_status_def response_json_def stats_of_def bind_err_def)

section \<open>Callers and the fatal error\<close>

lemma request_fatal:
  assumes "9 \<le> consecutive_429s s" and "0 \<le> max_retries s"
      and "is_429 (fst (srv (request_count s + 1) q))"
  shows "request srv q s =
           (Inl (RateLimitError (Consecutive429s (consecutive_429s s + 1) (request_count s + 1))),
            (arrived srv q s)\<lparr>consecutive_429s := consecutive_429s s + 1\<rparr>)"
proof -
  from assms(3) obtain r where "fst (srv (request_count s + 1) q) = Responded r"
      and "status_code r = 429"
    by (cases "fst (srv (request_count s + 1) q)") auto
  then show ?thesis
    using assms(1,2)
    by (simp add: request_first request_loop_Cons on_429_fst on_429_fatal)
qed

lemma randint_fields [simp]:
  "max_retries (snd (randint rng a b s)) = max_retries s"
  "base_delay (snd (randint rng a b s)) = base_delay s"
  "request_count (snd (randint rng a b s)) = request_count s"
  "consecutive_429s (snd (randint rng a b s)) = consecutive_429s s"
  "cooldown_until (snd (randint rng a b s)) = cooldown_until s"
  "issued (snd (randint rng a b s)) = issued s"
  "sleeps (snd (randint rng a b s)) = sleeps s"
  "clock (snd (randint rng a b s)) = clock s"
  "request_timestamps (snd (randint rng a b s)) = request_timestamps s"
  "rand_calls (snd (randint rng a b s)) = rand_calls s + 1"
  by (simp_all add: randint_def)

lemma py_sleep_ok: "0 \<le> d \<Longrightarrow> py_sleep d s = Inr (sleep_for d s)"
  by (simp add: py_sleep_def not_less)

lemma submolts_pass_fatal:
  assumes "9 \<le> consecutive_429s s" and "0 \<le> max_retries s" and "0 \<le> base_delay s"
      and "\<forall>q. is_429 (fst (srv (request_count s + 1) q))"
  shows "submolts_pass srv rng target_count max_stale_pages c s =
     (if 9 \<le> consecutive_errors c then
        (Break, c\<lparr>consecutive_errors := consecutive_errors c + 1\<rparr>,
         (arrived srv (GetSubmolts (if offset c > 0 then Some (offset c) else None)) s)
           \<lparr>consecutive_429s := consecutive_429s s + 1\<rparr>)
      else
        (Continue,
         c\<lparr>consecutive_errors := consecutive_errors c + 1,
           offset := fst (randint rng 0 (max target_count 20000)
              ((arrived srv (GetSubmolts (if offset c > 0 then Some (offset c) else None)) s)
                 \<lparr>consecutive_429s := consecutive_429s s + 1\<rparr>))\<rparr>,
         sleep_for (base_delay s * real (consecutive_errors c + 1))
           (snd (randint rng 0 (max target_count 20000)
              ((arrived srv (GetSubmolts (if offset c > 0 then Some (offset c) else None)) s)
                 \<lparr>consecutive_429s := consecutive_429s s + 1\<rparr>)))))"
proof -
  let ?q = "GetSubmolts (if offset c > 0 then Some (offset c) else None)"
  have f: "try_fetch_submolts srv (offset c) s =
           (Inl (RateLimitError (Consecutive429s (consecutive_429s s + 1) (request_count s + 1))),
            (arrived srv ?q s)\<lparr>consecutive_429s := consecutive_429s s + 1\<rparr>)"
    using assms by (simp add: try_fetch_submolts_def request_fatal)
  have d: "0 \<le> base_delay s * real (consecutive_errors c + 1)"
    using assms(3) by simp
  show ?thesis
    unfolding submolts_pass_def f
    using d by (simp add: Let_def py_sleep_ok)
qed

lemma posts_pass_fatal:
  assumes "9 \<le> consecutive_429s s" and "0 \<le> max_retries s" and "0 \<le> base_delay s"
      and "\<forall>q. is_429 (fst (srv (request_count s + 1) q))"
  shows "posts_pass srv rng target_count max_stale_pages c s =
     (if 9 \<le> consecutive_errors c then
        (Break, c\<lparr>consecutive_errors := consecutive_errors c + 1\<rparr>,
         (arrived srv (GetPosts 100 (if offset c > 0 then Some (offset c) else None)) s)
           \<lparr>consecutive_429s := consecutive_429s s + 1\<rparr>)
      else
        (Continue,
         c\<lparr>consecutive_errors := consecutive_errors c + 1,
           offset := fst (randint rng 0 (max target_count 100000)
              ((arrived srv (GetPosts 100 (if offset c > 0 then Some (offset c) else None)) s)
                 \<lparr>consecutive_429s := consecutive_429s s + 1\<rparr>))\<rparr>,
         sleep_for (base_delay s * real (consecutive_errors c + 1))
           (snd (randint rng 0 (max target_count 100000)
              ((arrived srv (GetPosts 100 (if offset c > 0 then Some (offset c) else None)) s)
                 \<lparr>consecutive_429s := consecutive_429s s + 1\<rparr>)))))"
proof -
  let ?q = "GetPosts 100 (if offset c > 0 then Some (offset c) else None)"
  have f: "try_fetch_posts srv (offset c) s =
           (Inl (RateLimitError (Consecutive429s (consecutive_429s s + 1) (request_count s + 1))),
            (arrived srv ?q s)\<lparr>consecutive_429s := consecutive_429s s + 1\<rparr>)"
    using assms by (simp add: try_fetch_posts_def request_fatal)
  have d: "0 \<le> base_delay s * real (consecutive_errors c + 1)"
    using assms(3) by simp
  show ?thesis
    unfolding posts_pass_def f
    using d by (simp add: Let_def py_sleep_ok)
qed

lemma submolts_loop_all_fatal:
  assumes "\<forall>n q. is_429 (fst (srv n q))" and "9 \<le> consecutive_429s s"
      and "0 \<le> max_retries s" and "0 \<le> base_delay s"
      and "consecutive_errors c + k = 10" and "0 < k" and "k \<le> fuel"
  shows "fst (submolts_loop fuel srv rng target_count max_stale_pages c s)
           = Some (Inr (total_count c))
       \<and> length (issued (snd (snd (submolts_loop fuel srv rng target_count max_stale_pages c s))))
           = length (issued s) + k"
  using assms
proof (induction k arbitrary: c s fuel)
  case 0
  then show ?case by simp
next
  case (Suc k)
  from Suc.prems(7) obtain f where fuel: "fuel = Suc f" and kf: "k \<le> f"
    by (cases fuel) auto
  have all: "\<forall>q. is_429 (fst (srv (request_count s + 1) q))"
    using Suc.prems(1) by simp
  note pass = submolts_pass_fatal [where s = s and srv = srv and c = c and rng = rng
      and target_count = target_count and max_stale_pages = max_stale_pages,
      OF Suc.prems(2) Suc.prems(3) Suc.prems(4) all]
  show ?case
  proof (cases "k = 0")
    case True
    with Suc.prems(5) have "9 \<le> consecutive_errors c" by simp
    then show ?thesis
      using True by (simp add: fuel pass)
  next
    case False
    with Suc.prems(5) have lt: "\<not> 9 \<le> consecutive_errors c" by simp
    let ?q = "GetSubmolts (if offset c > 0 then Some (offset c) else None)"
    let ?s1 = "(arrived srv ?q s)\<lparr>consecutive_429s := consecutive_429s s + 1\<rparr>"
    let ?c2 = "c\<lparr>consecutive_errors := consecutive_errors c + 1,
                 offset := fst (randint rng 0 (max target_count 20000) ?s1)\<rparr>"
    let ?s3 = "sleep_for (base_delay s * real (consecutive_errors c + 1))
                 (snd (randint rng 0 (max target_count 20000) ?s1))"
    have step: "submolts_loop fuel srv rng target_count max_stale_pages c s
                  = submolts_loop f srv rng target_count max_stale_pages ?c2 ?s3"
      using lt by (simp add: fuel pass)
    have IH: "fst (submolts_loop f srv rng target_count max_stale_pages ?c2 ?s3)
           = Some (Inr (total_count ?c2))
       \<and> length (issued (snd (snd (submolts_loop f srv rng target_count max_stale_pages ?c2 ?s3))))
           = length (issued ?s3) + k"
    proof (rule Suc.IH)
      show "\<forall>n q. is_429 (fst (srv n q))" by (rule Suc.prems(1))
      show "9 \<le> consecutive_429s ?s3" using Suc.prems(2) by simp
      show "0 \<le> max_retries ?s3" using Suc.prems(3) by simp
      show "0 \<le> base_delay ?s3" using Suc.prems(4) by simp
      show "consecutive_errors ?c2 + k = 10" using Suc.prems(5) by simp
      show "0 < k" using False by simp
      show "k \<le> f" by (rule kf)
    qed
    show ?thesis
      unfolding step using IH by simp
  qed
qed

lemma posts_loop_all_fatal:
  assumes "\<forall>n q. is_429 (fst (srv n q))" and "9 \<le> consecutive_429s s"
      and "0 \<le> max_retries s" and "0 \<le> base_delay s"
      and "consecutive_errors c + k = 10" and "0 < k" and "k \<le> fuel"
  shows "fst (posts_loop fuel srv rng target_count max_stale_pages c s)
           = Some (Inr (total_count c))
       \<and> length (issued (snd (snd (posts_loop fuel srv rng target_count max_stale_pages c s))))
           = length (issued s) + k"
  using assms
proof (induction k arbitrary: c s fuel)
  case 0
  then show ?case by simp
next
  case (Suc k)
  from Suc.prems(7) obtain f where fuel: "fuel = Suc f" and kf: "k \<le> f"
    by (cases fuel) auto
  have all: "\<forall>q. is_429 (fst (srv (request_count s + 1) q))"
    using Suc.prems(1) by simp
  note pass = posts_pass_fatal [where s = s and srv = srv and c = c and rng = rng
      and target_count = target_count and max_stale_pages = max_stale_pages,
      OF Suc.prems(2) Suc.prems(3) Suc.prems(4) all]
  show ?case
  proof (cases "k = 0")
    case True
    with Suc.prems(5) have "9 \<le> consecutive_errors c" by simp
    then show ?thesis
      using True by (simp add: fuel pass)
  next
    case False
    with Suc.prems(5) have lt: "\<not> 9 \<le> consecutive_errors c" by simp
    let ?q = "GetPosts 100 (if offset c > 0 then Some (offset c) else None)"
    let ?s1 = "(arrived srv ?q s)\<lparr>consecutive_429s := consecutive_429s s + 1\<rparr>"
    let ?c2 = "c\<lparr>consecutive_errors := consecutive_errors c + 1,
                 offset := fst (randint rng 0 (max target_count 100000) ?s1)\<rparr>"
    let ?s3 = "sleep_for (base_delay s * real (consecutive_errors c + 1))
                 (snd (randint rng 0 (max target_count 100000) ?s1))"
    have step: "posts_loop fuel srv rng target_count max_stale_pages c s
                  = posts_loop f srv rng target_count max_stale_pages ?c2 ?s3"
      using lt by (simp add: fuel pass)
    have IH: "fst (posts_loop f srv rng target_count max_stale_pages ?c2 ?s3)
           = Some (Inr (total_count ?c2))
       \<and> length (issued (snd (snd (posts_loop f srv rng target_count max_stale_pages ?c2 ?s3))))
           = length (issued ?s3) + k"
    proof (rule Suc.IH)
      show "\<forall>n q. is_429 (fst (srv n q))" by (rule Suc.prems(1))
      show "9 \<le> consecutive_429s ?s3" using Suc.prems(2) by simp
      show "0 \<le> max_retries ?s3" using Suc.prems(3) by simp
      show "0 \<le> base_delay ?s3" using Suc.prems(4) by simp
      show "consecutive_errors ?c2 + k = 10" using Suc.prems(5) by simp
      show "0 < k" using False by simp
      show "k \<le> f" by (rule kf)
    qed
    show ?thesis
      unfolding step using IH by simp
  qed
qed


text \<open>
  Claim C2, as stated, fails. After nine consecutive 429 responses the tenth makes the
  executor raise its fatal error, and then: \<^verbatim>\<open>fetch_submolt_moderators\<close> returns the empty
  list, and \<^verbatim>\<open>fetch_submolts_streaming\<close> counts a fetch error and goes on to another offset;
  against a server that keeps answering 429 it issues ten requests before it returns 0.
\<close>

theorem fatal_error_swallowed_and_retried:
  "fst (request (\<lambda>n q. (Responded \<lparr>status_code = 429, body = None\<rparr>, 0)) (GetModerators ''m'')
          ((new_client 5 2 1000)\<lparr>consecutive_429s := 9, request_count := 9\<rparr>))
     = Inl (RateLimitError (Consecutive429s 10 10))
 \<and> fst (fetch_submolt_moderators (\<lambda>n q. (Responded \<lparr>status_code = 429, body = None\<rparr>, 0)) ''m''
          ((new_client 5 2 1000)\<lparr>consecutive_429s := 9, request_count := 9\<rparr>))
     = Inr (JList [])
 \<and> fst (submolts_pass (\<lambda>n q. (Responded \<lparr>status_code = 429, body = None\<rparr>, 0)) (\<lambda>n. 7) 0 20
          init_collector ((new_client 5 2 1000)\<lparr>consecutive_429s := 9, request_count := 9\<rparr>))
     = Continue
 \<and> fst (fetch_submolts_streaming 10 (\<lambda>n q. (Responded \<lparr>status_code = 429, body = None\<rparr>, 0))
          (\<lambda>n. 7) 0 20 ((new_client 5 2 1000)\<lparr>consecutive_429s := 9, request_count := 9\<rparr>))
     = Some (Inr 0)
 \<and> length (issued (snd (snd (fetch_submolts_streaming 10
          (\<lambda>n q. (Responded \<lparr>status_code = 429, body = None\<rparr>, 0))
          (\<lambda>n. 7) 0 20 ((new_client 5 2 1000)\<lparr>consecutive_429s := 9, request_count := 9\<rparr>)))))
     = 10"
proof -
  let ?srv = "\<lambda>(n::nat) (q::request). (Responded \<lparr>status_code = 429, body = None\<rparr>, 0::real)"
  let ?s = "(new_client 5 2 1000)\<lparr>consecutive_429s := 9, request_count := 9\<rparr>"
  have s: "9 \<le> consecutive_429s ?s" "0 \<le> max_retries ?s" "0 \<le> base_delay ?s"
    by (simp_all add: new_client_def)
  have a: "\<forall>n q. is_429 (fst (?srv n q))" by simp
  have a1: "\<forall>q. is_429 (fst (?srv (request_count ?s + 1) q))" by simp
  have r: "fst (request ?srv (GetModerators ''m'') ?s) = Inl (RateLimitError (Consecutive429s 10 10))"
    by (simp add: request_fatal new_client_def)
  have m: "fst (fetch_submolt_moderators ?srv ''m'' ?s) = Inr (JList [])"
    by (simp add: fetch_submolt_moderators_def request_fatal new_client_def)
  have p: "fst (submolts_pass ?srv (\<lambda>n. 7) 0 20 init_collector ?s) = Continue"
    by (simp add: submolts_pass_fatal [where srv = ?srv and s = ?s, OF s a1] init_collector_def)
  have l: "fst (fetch_submolts_streaming 10 ?srv (\<lambda>n. 7) 0 20 ?s) = Some (Inr 0)
         \<and> length (issued (snd (snd (fetch_submolts_streaming 10 ?srv (\<lambda>n. 7) 0 20 ?s)))) = 10"
    using submolts_loop_all_fatal [where srv = ?srv and s = ?s and c = init_collector
        and k = 10 and fuel = 10 and rng = "\<lambda>n. 7" and target_count = 0 and max_stale_pages = 20,
        OF a s]
    by (simp add: fetch_submolts_streaming_def init_collector_def new_client_def)
  show ?thesis using r m p l by simp
qed

text \<open>
  Claim C2, amended. When the tenth consecutive 429 arrives, the executor raises the fatal
  error after that one request, without retrying. Callers without an exception handler
  (\<^verbatim>\<open>fetch_agent_profile\<close>, \<^verbatim>\<open>fetch_post_with_comments\<close>, \<^verbatim>\<open>fetch_platform_stats\<close>) let
  it propagate. \<^verbatim>\<open>fetch_submolt_moderators\<close> returns the empty list instead. The two
  streaming collectors treat it as a fetch error: the pass ends in \<^verbatim>\<open>continue\<close>, and while
  the server keeps answering 429 they issue ten requests in all and then return the
  total collected, here 0.
\<close>

theorem fatal_error_at_callers:
  assumes "\<forall>n q. is_429 (fst (srv n q))" and "9 \<le> consecutive_429s s"
      and "0 \<le> max_retries s" and "0 \<le> base_delay s"
  shows "fst (request srv q s)
           = Inl (RateLimitError (Consecutive429s (consecutive_429s s + 1) (request_count s + 1)))
       \<and> issued (snd (request srv q s)) = issued s @ [q]
       \<and> fst (fetch_agent_profile srv name s)
           = Inl (RateLimitError (Consecutive429s (consecutive_429s s + 1) (request_count s + 1)))
       \<and> fst (fetch_post_with_comments srv post_id s)
           = Inl (RateLimitError (Consecutive429s (consecutive_429s s + 1) (request_count s + 1)))
       \<and> (0 < retries \<longrightarrow> fst (fetch_platform_stats srv retries s)
           = Inl (RateLimitError (Consecutive429s (consecutive_429s s + 1) (request_count s + 1))))
       \<and> fst (fetch_submolt_moderators srv submolt_name s) = Inr (JList [])
       \<and> fst (submolts_pass srv rng target_count max_stale_pages init_collector s) = Continue
       \<and> fst (posts_pass srv rng target_count max_stale_pages init_collector s) = Continue
       \<and> (10 \<le> fuel \<longrightarrow>
            fst (fetch_submolts_streaming fuel srv rng target_count max_stale_pages s)
              = Some (Inr 0)
          \<and> length (issued (snd (snd
                (fetch_submolts_streaming fuel srv rng target_count max_stale_pages s))))
              = length (issued s) + 10
          \<and> fst (fetch_posts_streaming fuel srv rng target_count max_stale_pages s)
              = Some (Inr 0)
          \<and> length (issued (snd (snd
                (fetch_posts_streaming fuel srv rng target_count max_stale_pages s))))
              = length (issued s) + 10)"
proof -
  have one: "is_429 (fst (srv (request_count s + 1) q'))" for q'
    using assms(1) by simp
  have all1: "\<forall>q. is_429 (fst (srv (request_count s + 1) q))"
    using assms(1) by simp
  have rf: "request srv q' s =
           (Inl (RateLimitError (Consecutive429s (consecutive_429s s + 1) (request_count s + 1))),
            (arrived srv q' s)\<lparr>consecutive_429s := consecutive_429s s + 1\<rparr>)" for q'
    using assms(2) assms(3) one by (rule request_fatal)
  have stats: "fst (fetch_platform_stats srv retries s)
           = Inl (RateLimitError (Consecutive429s (consecutive_429s s + 1) (request_count s + 1)))"
    if "0 < retries"
  proof -
    from that have "[0 ..< nat retries] = 0 # [1 ..< nat retries]"
      by (simp add: upt_conv_Cons)
    then show ?thesis by (simp add: fetch_platform_stats_def rf)
  qed
  have sp: "fst (submolts_pass srv rng target_count max_stale_pages init_collector s) = Continue"
    by (simp add: submolts_pass_fatal [where srv = srv and s = s, OF assms(2) assms(3) assms(4) all1]
          init_collector_def)
  have pp: "fst (posts_pass srv rng target_count max_stale_pages init_collector s) = Continue"
    by (simp add: posts_pass_fatal [where srv = srv and s = s, OF assms(2) assms(3) assms(4) all1]
          init_collector_def)
  have ce: "consecutive_errors init_collector + 10 = 10" "total_count init_collector = 0"
    by (simp_all add: init_collector_def)
  have sl: "fst (fetch_submolts_streaming fuel srv rng target_count max_stale_pages s)
              = Some (Inr 0)
          \<and> length (issued (snd (snd
                (fetch_submolts_streaming fuel srv rng target_count max_stale_pages s))))
              = length (issued s) + 10"
    if "10 \<le> fuel"
    using submolts_loop_all_fatal [where srv = srv and s = s and c = init_collector
        and k = 10 and fuel = fuel and rng = rng and target_count = target_count
        and max_stale_pages = max_stale_pages, OF assms(1) assms(2) assms(3) assms(4) ce(1)] that
    by (simp add: fetch_submolts_streaming_def ce(2))
  have pl: "fst (fetch_posts_streaming fuel srv rng target_count max_stale_pages s)
              = Some (Inr 0)
          \<and> length (issued (snd (snd
                (fetch_posts_streaming fuel srv rng target_count max_stale_pages s))))
              = length (issued s) + 10"
    if "10 \<le> fuel"
    using posts_loop_all_fatal [where srv = srv and s = s and c = init_collector
        and k = 10 and fuel = fuel and rng = rng and target_count = target_count
        and max_stale_pages = max_stale_pages, OF assms(1) assms(2) assms(3) assms(4) ce(1)] that
    by (simp add: fetch_posts_streaming_def ce(2))
  have base: "fst (request srv q s)
           = Inl (RateLimitError (Consecutive429s (consecutive_429s s + 1) (request_count s + 1)))
       \<and> issued (snd (request srv q s)) = issued s @ [q]
       \<and> fst (fetch_agent_profile srv name s)
           = Inl (RateLimitError (Consecutive429s (consecutive_429s s + 1) (request_count s + 1)))
       \<and> fst (fetch_post_with_comments srv post_id s)
           = Inl (RateLimitError (Consecutive429s (consecutive_429s s + 1) (request_count s + 1)))
       \<and> fst (fetch_submolt_moderators srv submolt_name s) = Inr (JList [])"
    by (simp add: rf fetch_agent_profile_def fetch_post_with_comments_def
          fetch_submolt_moderators_def)
  show ?thesis using base stats sp pp sl pl by blast
qed

theorem fatal_error_at_callers_witness:
  "fst (fetch_agent_profile (\<lambda>n q. (Responded \<lparr>status_code = 429, body = None\<rparr>, 0)) ''a''
          ((new_client 5 2 1000)\<lparr>consecutive_429s := 9, request_count := 9\<rparr>))
     = Inl (RateLimitError (Consecutive429s 10 10))
 \<and> fst (fetch_platform_stats (\<lambda>n q. (Responded \<lparr>status_code = 429, body = None\<rparr>, 0)) 10
          ((new_client 5 2 1000)\<lparr>consecutive_429s := 9, request_count := 9\<rparr>))
     = Inl (RateLimitError (Consecutive429s 10 10))
 \<and> fst (fetch_posts_streaming 12 (\<lambda>n q. (Responded \<lparr>status_code = 429, body = None\<rparr>, 0))
          (\<lambda>n. 7) 0 20 ((new_client 5 2 1000)\<lparr>consecutive_429s := 9, request_count := 9\<rparr>))
     = Some (Inr 0)"
  using fatal_error_at_callers [where srv = "\<lambda>n q. (Responded \<lparr>status_code = 429, body = None\<rparr>, 0)"
          and s = "(new_client 5 2 1000)\<lparr>consecutive_429s := 9, request_count := 9\<rparr>"
          and retries = 10 and fuel = 12 and name = "''a''" and rng = "\<lambda>n. 7"
          and target_count = 0 and max_stale_pages = 20]
  by (simp add: new_client_def)

section \<open>The streaming collectors on a page\<close>

lemma new_records_all_new:
  "map (record_key field) xs = map Inr ks \<Longrightarrow> set ks \<inter> seen = {}
     \<Longrightarrow> new_records field seen xs = Inr xs"
proof (induction xs arbitrary: ks)
  case Nil
  show ?case by simp
next
  case (Cons x xs)
  from Cons.prems(1) obtain k ks' where ks: "ks = k # ks'" by (cases ks) auto
  with Cons.prems have "record_key field x = Inr k" "map (record_key field) xs = map Inr ks'"
      "k \<notin> seen" "set ks' \<inter> seen = {}"
    by auto
  with Cons.IH [of ks'] show ?case by simp
qed

lemma new_records_none_new:
  "map (record_key field) xs = map Inr ks \<Longrightarrow> set ks \<subseteq> seen
     \<Longrightarrow> new_records field seen xs = Inr []"
proof (induction xs arbitrary: ks)
  case Nil
  show ?case by simp
next
  case (Cons x xs)
  from Cons.prems(1) obtain k ks' where ks: "ks = k # ks'" by (cases ks) auto
  with Cons.prems have "record_key field x = Inr k" "map (record_key field) xs = map Inr ks'"
      "k \<in> seen" "set ks' \<subseteq> seen"
    by auto
  with Cons.IH [of ks'] show ?case by simp
qed

lemma add_keys_union:
  "map (record_key field) xs = map Inr ks \<Longrightarrow> add_keys field xs seen = seen \<union> set ks"
proof (induction xs arbitrary: ks seen)
  case Nil
  then show ?case by simp
next
  case (Cons x xs)
  from Cons.prems(1) obtain k ks' where ks: "ks = k # ks'" by (cases ks) auto
  with Cons.prems have "record_key field x = Inr k" "map (record_key field) xs = map Inr ks'"
    by auto
  with Cons.IH [of ks' "insert k seen"] ks show ?case by auto
qed

text \<open>The rest of the pass of \<^verbatim>\<open>fetch_submolts_streaming\<close>, once a non-empty list has been
  fetched and filtered.\<close>

lemma submolts_pass_page:
  assumes "try_fetch_submolts srv (offset c) s = (Inr (JList items), s1)" and "items \<noteq> []"
      and "new_records ''name'' (seen_keys c) items = Inr new"
  shows "submolts_pass srv rng target_count max_stale_pages c s =
     (if new \<noteq> [] then
        (if (target_count > 0 \<and> int (total_count c + length new) \<ge> target_count)
            \<or> 0 \<ge> max_stale_pages then
           (Break,
            c\<lparr>consecutive_errors := 0, page := page c + 1,
              delivered := delivered c @ [(page c + 1, new)],
              total_count := total_count c + length new,
              seen_keys := add_keys ''name'' new (seen_keys c), stale_pages := 0\<rparr>, s1)
         else if 2 * length new < length items then
           (Continue,
            c\<lparr>consecutive_errors := 0, page := page c + 1,
              delivered := delivered c @ [(page c + 1, new)],
              total_count := total_count c + length new,
              seen_keys := add_keys ''name'' new (seen_keys c), stale_pages := 0,
              offset := fst (randint rng 0 (max target_count 20000) s1)\<rparr>,
            snd (randint rng 0 (max target_count 20000) s1))
         else
           (Continue,
            c\<lparr>consecutive_errors := 0, page := page c + 1,
              delivered := delivered c @ [(page c + 1, new)],
              total_count := total_count c + length new,
              seen_keys := add_keys ''name'' new (seen_keys c), stale_pages := 0,
              offset := offset c + 100\<rparr>, s1))
      else
        (if (target_count > 0 \<and> int (total_count c) \<ge> target_count)
            \<or> int (stale_pages c + 1) \<ge> max_stale_pages then
           (Break, c\<lparr>consecutive_errors := 0, stale_pages := stale_pages c + 1\<rparr>, s1)
         else
           (Continue,
            c\<lparr>consecutive_errors := 0, stale_pages := stale_pages c + 1,
              offset := fst (randint rng 0 (max target_count 20000) s1)\<rparr>,
            snd (randint rng 0 (max target_count 20000) s1))))"
  using assms by (simp add: submolts_pass_def Let_def)

lemma posts_pass_page:
  assumes "try_fetch_posts srv (offset c) s = (Inr r, s1)"
      and "bind_err (response_json r) (\<lambda>data. dict_get data ''posts'' (JList [])) = Inr (JList items)"
      and "items \<noteq> []"
      and "new_records ''id'' (seen_keys c) items = Inr new"
  shows "posts_pass srv rng target_count max_stale_pages c s =
     (if new \<noteq> [] then
        (if (target_count > 0 \<and> int (total_count c + length new) \<ge> target_count)
            \<or> 0 \<ge> max_stale_pages then
           (Break,
            c\<lparr>consecutive_errors := 0, page := page c + 1,
              delivered := delivered c @ [(page c + 1, new)],
              total_count := total_count c + length new,
              seen_keys := add_keys ''id'' new (seen_keys c), stale_pages := 0\<rparr>, s1)
         else if 2 * length new < length items then
           (Continue,
            c\<lparr>consecutive_errors := 0, page := page c + 1,
              delivered := delivered c @ [(page c + 1, new)],
              total_count := total_count c + length new,
              seen_keys := add_keys ''id'' new (seen_keys c), stale_pages := 0,
              offset := fst (randint rng 0 (max target_count 100000) s1)\<rparr>,
            snd (randint rng 0 (max target_count 100000) s1))
         else
           (Continue,
            c\<lparr>consecutive_errors := 0, page := page c + 1,
              delivered := delivered c @ [(page c + 1, new)],
              total_count := total_count c + length new,
              seen_keys := add_keys ''id'' new (seen_keys c), stale_pages := 0,
              offset := offset c + 100\<rparr>, s1))
      else
        (if (target_count > 0 \<and> int (total_count c) \<ge> target_count)
            \<or> int (stale_pages c + 1) \<ge> max_stale_pages then
           (Break, c\<lparr>consecutive_errors := 0, stale_pages := stale_pages c + 1\<rparr>, s1)
         else
           (Continue,
            c\<lparr>consecutive_errors := 0, stale_pages := stale_pages c + 1,
              offset := fst (randint rng 0 (max target_count 100000) s1)\<rparr>,
            snd (randint rng 0 (max target_count 100000) s1))))"
  using assms by (simp add: posts_pass_def Let_def)

section \<open>A backend that repeats one page\<close>

lemma try_fetch_submolts_page:
  assumes "serves_page srv ''submolts'' pg" and "0 \<le> max_retries s"
  shows "try_fetch_submolts srv off s =
           (Inr (JList pg),
            on_success (arrived srv (GetSubmolts (if off > 0 then Some off else None)) s))"
proof -
  let ?q = "GetSubmolts (if off > 0 then Some off else None)"
  from assms(1) obtain resp data where r: "fst (srv (request_count s + 1) ?q) = Responded resp"
      "status_code resp = 200" "body resp = Some data"
      "dict_get data ''submolts'' (JList []) = Inr (JList pg)"
    unfolding serves_page_def by blast
  have "request srv ?q s = (Inr resp, on_success (arrived srv ?q s))"
    using assms(2) r(1,2) by (intro request_returns) simp_all
  then show ?thesis
    using r(2-4)
    by (simp add: try_fetch_submolts_def raise_for_status_def response_json_def bind_err_def)
qed

lemma try_fetch_posts_page:
  assumes "serves_page srv ''posts'' pg" and "0 \<le> max_retries s"
  shows "\<exists>r. try_fetch_posts srv off s =
               (Inr r,
                on_success (arrived srv (GetPosts 100 (if off > 0 then Some off else None)) s))
           \<and> bind_err (response_json r) (\<lambda>data. dict_get data ''posts'' (JList []))
               = Inr (JList pg)"
proof -
  let ?q = "GetPosts 100 (if off > 0 then Some off else None)"
  from assms(1) obtain resp data where r: "fst (srv (request_count s + 1) ?q) = Responded resp"
      "status_code resp = 200" "body resp = Some data"
      "dict_get data ''posts'' (JList []) = Inr (JList pg)"
    unfolding serves_page_def by blast
  have "request srv ?q s = (Inr resp, on_success (arrived srv ?q s))"
    using assms(2) r(1,2) by (intro request_returns) simp_all
  then show ?thesis
    using r(2-4)
    by (simp add: try_fetch_posts_def raise_for_status_def response_json_def bind_err_def)
qed

lemma init_collector_fields [simp]:
  "total_count init_collector = 0" "offset init_collector = 0" "page init_collector = 0"
  "seen_keys init_collector = {}" "stale_pages init_collector = 0"
  "consecutive_errors init_collector = 0" "delivered init_collector = []"
  by (simp_all add: init_collector_def)

lemma submolts_loop_stale:
  assumes "serves_page srv ''submolts'' pg" and "pg \<noteq> []"
      and "map (record_key ''name'') pg = map Inr ks"
      and "0 \<le> max_retries s" and "set ks \<subseteq> seen_keys c"
      and "\<not> (target_count > 0 \<and> int (total_count c) \<ge> target_count)"
      and "int (stale_pages c) + int k = max_stale_pages" and "0 < k" and "k \<le> fuel"
  shows "fst (submolts_loop fuel srv rng target_count max_stale_pages c s)
           = Some (Inr (total_count c))
       \<and> delivered (fst (snd (submolts_loop fuel srv rng target_count max_stale_pages c s)))
           = delivered c
       \<and> length (issued (snd (snd (submolts_loop fuel srv rng target_count max_stale_pages c s))))
           = length (issued s) + k"
  using assms(4-)
proof (induction k arbitrary: c s fuel)
  case 0
  then show ?case by simp
next
  case (Suc k)
  from Suc.prems(6) obtain f where fuel: "fuel = Suc f" and kf: "k \<le> f"
    by (cases fuel) auto
  let ?q = "GetSubmolts (if offset c > 0 then Some (offset c) else None)"
  let ?s1 = "on_success (arrived srv ?q s)"
  have fetch: "try_fetch_submolts srv (offset c) s = (Inr (JList pg), ?s1)"
    using assms(1) Suc.prems(1) by (rule try_fetch_submolts_page)
  have none: "new_records ''name'' (seen_keys c) pg = Inr []"
    using assms(3) Suc.prems(2) by (rule new_records_none_new)
  note pass = submolts_pass_page [where rng = rng and target_count = target_count
      and max_stale_pages = max_stale_pages, OF fetch assms(2) none]
  show ?case
  proof (cases "k = 0")
    case True
    with Suc.prems(4) have "int (stale_pages c + 1) \<ge> max_stale_pages" by simp
    then show ?thesis
      using True by (cases "target_count > 0") (simp_all add: fuel pass)
  next
    case False
    with Suc.prems(4) have lt: "\<not> int (stale_pages c + 1) \<ge> max_stale_pages" by simp
    let ?c2 = "c\<lparr>consecutive_errors := 0, stale_pages := stale_pages c + 1,
                 offset := fst (randint rng 0 (max target_count 20000) ?s1)\<rparr>"
    let ?s2 = "snd (randint rng 0 (max target_count 20000) ?s1)"
    have step: "submolts_loop fuel srv rng target_count max_stale_pages c s
                  = submolts_loop f srv rng target_count max_stale_pages ?c2 ?s2"
      using lt Suc.prems(3) by (cases "target_count > 0") (simp_all add: fuel pass)
    have IH: "fst (submolts_loop f srv rng target_count max_stale_pages ?c2 ?s2)
           = Some (Inr (total_count ?c2))
       \<and> delivered (fst (snd (submolts_loop f srv rng target_count max_stale_pages ?c2 ?s2)))
           = delivered ?c2
       \<and> length (issued (snd (snd (submolts_loop f srv rng target_count max_stale_pages ?c2 ?s2))))
           = length (issued ?s2) + k"
    proof (rule Suc.IH)
      show "0 \<le> max_retries ?s2" using Suc.prems(1) by simp
      show "set ks \<subseteq> seen_keys ?c2" using Suc.prems(2) by simp
      show "\<not> (target_count > 0 \<and> int (total_count ?c2) \<ge> target_count)"
        using Suc.prems(3) by simp
      show "int (stale_pages ?c2) + int k = max_stale_pages" using Suc.prems(4) by simp
      show "0 < k" using False by simp
      show "k \<le> f" by (rule kf)
    qed
    show ?thesis
      unfolding step using IH by simp
  qed
qed

lemma submolts_fixed_page:
  assumes "serves_page srv ''submolts'' pg" and "pg \<noteq> []"
      and "map (record_key ''name'') pg = map Inr ks"
      and "0 \<le> max_retries s" and "1 + nat max_stale_pages \<le> fuel"
  shows "fst (fetch_submolts_streaming fuel srv rng target_count max_stale_pages s)
           = Some (Inr (length pg))
       \<and> delivered (fst (snd (fetch_submolts_streaming fuel srv rng target_count max_stale_pages s)))
           = [(1, pg)]
       \<and> length (issued (snd (snd
             (fetch_submolts_streaming fuel srv rng target_count max_stale_pages s))))
           = length (issued s)
             + (if target_count > 0 \<and> int (length pg) \<ge> target_count then 1
                else 1 + nat max_stale_pages)"
proof -
  from assms(5) obtain f where fuel: "fuel = Suc f" and f: "nat max_stale_pages \<le> f"
    by (cases fuel) auto
  let ?c = init_collector
  let ?q = "GetSubmolts (if offset ?c > 0 then Some (offset ?c) else None)"
  let ?s1 = "on_success (arrived srv ?q s)"
  have fetch: "try_fetch_submolts srv (offset ?c) s = (Inr (JList pg), ?s1)"
    using assms(1) assms(4) by (rule try_fetch_submolts_page)
  have new: "new_records ''name'' (seen_keys ?c) pg = Inr pg"
    using assms(3) by (rule new_records_all_new) simp
  note pass = submolts_pass_page [where rng = rng and target_count = target_count
      and max_stale_pages = max_stale_pages, OF fetch assms(2) new]
  let ?c2 = "?c\<lparr>consecutive_errors := 0, page := page ?c + 1,
              delivered := delivered ?c @ [(page ?c + 1, pg)],
              total_count := total_count ?c + length pg,
              seen_keys := add_keys ''name'' pg (seen_keys ?c), stale_pages := 0,
              offset := offset ?c + 100\<rparr>"
  show ?thesis
  proof (cases "(target_count > 0 \<and> int (length pg) \<ge> target_count) \<or> 0 \<ge> max_stale_pages")
    case True
    then show ?thesis
      using assms(2)
      by (cases "target_count > 0") (auto simp add: fetch_submolts_streaming_def fuel pass)
  next
    case False
    then have step: "fetch_submolts_streaming fuel srv rng target_count max_stale_pages s
                  = submolts_loop f srv rng target_count max_stale_pages ?c2 ?s1"
      using assms(2)
      by (cases "target_count > 0") (simp_all add: fetch_submolts_streaming_def fuel pass)
    have L: "fst (submolts_loop f srv rng target_count max_stale_pages ?c2 ?s1)
           = Some (Inr (total_count ?c2))
       \<and> delivered (fst (snd (submolts_loop f srv rng target_count max_stale_pages ?c2 ?s1)))
           = delivered ?c2
       \<and> length (issued (snd (snd (submolts_loop f srv rng target_count max_stale_pages ?c2 ?s1))))
           = length (issued ?s1) + nat max_stale_pages"
    proof (rule submolts_loop_stale [OF assms(1) assms(2) assms(3)])
      show "0 \<le> max_retries ?s1" using assms(4) by simp
      show "set ks \<subseteq> seen_keys ?c2" by (simp add: add_keys_union [OF assms(3)])
      show "\<not> (target_count > 0 \<and> int (total_count ?c2) \<ge> target_count)"
        using False by simp
      show "int (stale_pages ?c2) + int (nat max_stale_pages) = max_stale_pages"
        using False by simp
      show "0 < nat max_stale_pages" using False by simp
      show "nat max_stale_pages \<le> f" by (rule f)
    qed
    show ?thesis
      unfolding step using L False by (cases "target_count > 0") simp_all
  qed
qed

lemma posts_loop_stale:
  assumes "serves_page srv ''posts'' pg" and "pg \<noteq> []"
      and "map (record_key ''id'') pg = map Inr ks"
      and "0 \<le> max_retries s" and "set ks \<subseteq> seen_keys c"
      and "\<not> (target_count > 0 \<and> int (total_count c) \<ge> target_count)"
      and "int (stale_pages c) + int k = max_stale_pages" and "0 < k" and "k \<le> fuel"
  shows "fst (posts_loop fuel srv rng target_count max_stale_pages c s)
           = Some (Inr (total_count c))
       \<and> delivered (fst (snd (posts_loop fuel srv rng target_count max_stale_pages c s)))
           = delivered c
       \<and> length (issued (snd (snd (posts_loop fuel srv rng target_count max_stale_pages c s))))
           = length (issued s) + k"
  using assms(4-)
proof (induction k arbitrary: c s fuel)
  case 0
  then show ?case by simp
next
  case (Suc k)
  from Suc.prems(6) obtain f where fuel: "fuel = Suc f" and kf: "k \<le> f"
    by (cases fuel) auto
  let ?q = "GetPosts 100 (if offset c > 0 then Some (offset c) else None)"
  let ?s1 = "on_success (arrived srv ?q s)"
  from try_fetch_posts_page [OF assms(1) Suc.prems(1), of "offset c"]
  obtain r where fetch: "try_fetch_posts srv (offset c) s = (Inr r, ?s1)"
    and dec: "bind_err (response_json r) (\<lambda>data. dict_get data ''posts'' (JList []))
               = Inr (JList pg)"
    by blast
  have none: "new_records ''id'' (seen_keys c) pg = Inr []"
    using assms(3) Suc.prems(2) by (rule new_records_none_new)
  note pass = posts_pass_page [where rng = rng and target_count = target_count
      and max_stale_pages = max_stale_pages, OF fetch dec assms(2) none]
  show ?case
  proof (cases "k = 0")
    case True
    with Suc.prems(4) have "int (stale_pages c + 1) \<ge> max_stale_pages" by simp
    then show ?thesis
      using True by (cases "target_count > 0") (simp_all add: fuel pass)
  next
    case False
    with Suc.prems(4) have lt: "\<not> int (stale_pages c + 1) \<ge> max_stale_pages" by simp
    let ?c2 = "c\<lparr>consecutive_errors := 0, stale_pages := stale_pages c + 1,
                 offset := fst (randint rng 0 (max target_count 100000) ?s1)\<rparr>"
    let ?s2 = "snd (randint rng 0 (max target_count 100000) ?s1)"
    have step: "posts_loop fuel srv rng target_count max_stale_pages c s
                  = posts_loop f srv rng target_count max_stale_pages ?c2 ?s2"
      using lt Suc.prems(3) by (cases "target_count > 0") (simp_all add: fuel pass)
    have IH: "fst (posts_loop f srv rng target_count max_stale_pages ?c2 ?s2)
           = Some (Inr (total_count ?c2))
       \<and> delivered (fst (snd (posts_loop f srv rng target_count max_stale_pages ?c2 ?s2)))
           = delivered ?c2
       \<and> length (issued (snd (snd (posts_loop f srv rng target_count max_stale_pages ?c2 ?s2))))
           = length (issued ?s2) + k"
    proof (rule Suc.IH)
      show "0 \<le> max_retries ?s2" using Suc.prems(1) by simp
      show "set ks \<subseteq> seen_keys ?c2" using Suc.prems(2) by simp
      show "\<not> (target_count > 0 \<and> int (total_count ?c2) \<ge> target_count)"
        using Suc.prems(3) by simp
      show "int (stale_pages ?c2) + int k = max_stale_pages" using Suc.prems(4) by simp
      show "0 < k" using False by simp
      show "k \<le> f" by (rule kf)
    qed
    show ?thesis
      unfolding step using IH by simp
  qed
qed

lemma posts_fixed_page:
  assumes "serves_page srv ''posts'' pg" and "pg \<noteq> []"
      and "map (record_key ''id'') pg = map Inr ks"
      and "0 \<le> max_retries s" and "1 + nat max_stale_pages \<le> fuel"
  shows "fst (fetch_posts_streaming fuel srv rng target_count max_stale_pages s)
           = Some (Inr (length pg))
       \<and> delivered (fst (snd (fetch_posts_streaming fuel srv rng target_count max_stale_pages s)))
           = [(1, pg)]
       \<and> length (issued (snd (snd
             (fetch_posts_streaming fuel srv rng target_count max_stale_pages s))))
           = length (issued s)
             + (if target_count > 0 \<and> int (length pg) \<ge> target_count then 1
                else 1 + nat max_stale_pages)"
proof -
  from assms(5) obtain f where fuel: "fuel = Suc f" and f: "nat max_stale_pages \<le> f"
    by (cases fuel) auto
  let ?c = init_collector
  let ?q = "GetPosts 100 (if offset ?c > 0 then Some (offset ?c) else None)"
  let ?s1 = "on_success (arrived srv ?q s)"
  from try_fetch_posts_page [OF assms(1) assms(4), of "offset ?c"]
  obtain r where fetch: "try_fetch_posts srv (offset ?c) s = (Inr r, ?s1)"
    and dec: "bind_err (response_json r) (\<lambda>data. dict_get data ''posts'' (JList []))
               = Inr (JList pg)"
    by blast
  have new: "new_records ''id'' (seen_keys ?c) pg = Inr pg"
    using assms(3) by (rule new_records_all_new) simp
  note pass = posts_pass_page [where rng = rng and target_count = target_count
      and max_stale_pages = max_stale_pages, OF fetch dec assms(2) new]
  let ?c2 = "?c\<lparr>consecutive_errors := 0, page := page ?c + 1,
              delivered := delivered ?c @ [(page ?c + 1, pg)],
              total_count := total_count ?c + length pg,
              seen_keys := add_keys ''id'' pg (seen_keys ?c), stale_pages := 0,
              offset := offset ?c + 100\<rparr>"
  show ?thesis
  proof (cases "(target_count > 0 \<and> int (length pg) \<ge> target_count) \<or> 0 \<ge> max_stale_pages")
    case True
    then show ?thesis
      using assms(2)
      by (cases "target_count > 0") (auto simp add: fetch_posts_streaming_def fuel pass)
  next
    case False
    then have step: "fetch_posts_streaming fuel srv rng target_count max_stale_pages s
                  = posts_loop f srv rng target_count max_stale_pages ?c2 ?s1"
      using assms(2)
      by (cases "target_count > 0") (simp_all add: fetch_posts_streaming_def fuel pass)
    have L: "fst (posts_loop f srv rng target_count max_stale_pages ?c2 ?s1)
           = Some (Inr (total_count ?c2))
       \<and> delivered (fst (snd (posts_loop f srv rng target_count max_stale_pages ?c2 ?s1)))
           = delivered ?c2
       \<and> length (issued (snd (snd (posts_loop f srv rng target_count max_stale_pages ?c2 ?s1))))
           = length (issued ?s1) + nat max_stale_pages"
    proof (rule posts_loop_stale [OF assms(1) assms(2) assms(3)])
      show "0 \<le> max_retries ?s1" using assms(4) by simp
      show "set ks \<subseteq> seen_keys ?c2" by (simp add: add_keys_union [OF assms(3)])
      show "\<not> (target_count > 0 \<and> int (total_count ?c2) \<ge> target_count)"
        using False by simp
      show "int (stale_pages ?c2) + int (nat max_stale_pages) = max_stale_pages"
        using False by simp
      show "0 < nat max_stale_pages" using False by simp
      show "nat max_stale_pages \<le> f" by (rule f)
    qed
    show ?thesis
      unfolding step using L False by (cases "target_count > 0") simp_all
  qed
qed



text \<open>
  Claim C9. Against a backend that returns the same non-empty page of records with
  pairwise distinct keys at every offset (the 100 records of the claim are the instance of
  the witness), a streaming run returns, whatever the random source does: after the first
  page it fetches \<^verbatim>\<open>max_stale_pages\<close> further pages (none when the target is reached by
  the first page), so \<open>1 + max_stale_pages\<close> passes of fuel suffice, the callback
  receives the page once, and the total returned is the number of distinct keys.
\<close>

theorem fixed_page_run_terminates:
  assumes "pg \<noteq> []" and "distinct ks" and "0 \<le> max_retries s"
      and "1 + nat max_stale_pages \<le> fuel"
  shows "(serves_page srv ''submolts'' pg \<and> map (record_key ''name'') pg = map Inr ks \<longrightarrow>
            fst (fetch_submolts_streaming fuel srv rng target_count max_stale_pages s)
              = Some (Inr (card (set ks)))
          \<and> delivered (fst (snd
                (fetch_submolts_streaming fuel srv rng target_count max_stale_pages s)))
              = [(1, pg)]
          \<and> length (issued (snd (snd
                (fetch_submolts_streaming fuel srv rng target_count max_stale_pages s))))
              = length (issued s)
                + (if target_count > 0 \<and> int (length pg) \<ge> target_count then 1
                   else 1 + nat max_stale_pages))
       \<and> (serves_page srv ''posts'' pg \<and> map (record_key ''id'') pg = map Inr ks \<longrightarrow>
            fst (fetch_posts_streaming fuel srv rng target_count max_stale_pages s)
              = Some (Inr (card (set ks)))
          \<and> delivered (fst (snd
                (fetch_posts_streaming fuel srv rng target_count max_stale_pages s)))
              = [(1, pg)]
          \<and> length (issued (snd (snd
                (fetch_posts_streaming fuel srv rng target_count max_stale_pages s))))
              = length (issued s)
                + (if target_count > 0 \<and> int (length pg) \<ge> target_count then 1
                   else 1 + nat max_stale_pages))"
proof -
  have n: "card (set ks) = length pg" if "map (record_key field) pg = map Inr ks" for field
  proof -
    from that have "length (map (record_key field) pg) = length (map Inr ks :: (error + key) list)"
      by simp
    then have "length pg = length ks" by simp
    with assms(2) show ?thesis by (simp add: distinct_card)
  qed
  show ?thesis
    using submolts_fixed_page [where srv = srv and pg = pg and ks = ks and s = s
            and fuel = fuel and rng = rng and target_count = target_count
            and max_stale_pages = max_stale_pages, OF _ assms(1) _ assms(3) assms(4)]
          posts_fixed_page [where srv = srv and pg = pg and ks = ks and s = s
            and fuel = fuel and rng = rng and target_count = target_count
            and max_stale_pages = max_stale_pages, OF _ assms(1) _ assms(3) assms(4)]
          n [of "''name''"] n [of "''id''"]
    by (intro conjI impI) simp_all
qed

theorem fixed_page_run_terminates_witness:
  "fst (fetch_submolts_streaming 21
          (\<lambda>n q. (Responded \<lparr>status_code = 200,
             body = Some (JObj [(''submolts'',
               JList (map (\<lambda>i. JObj [(''name'', JInt (int i))]) [0 ..< 100]))])\<rparr>, 1 / 100))
          (\<lambda>n. 7 * n) 0 20 (new_client 5 2 1000))
     = Some (Inr 100)
 \<and> length (issued (snd (snd (fetch_submolts_streaming 21
          (\<lambda>n q. (Responded \<lparr>status_code = 200,
             body = Some (JObj [(''submolts'',
               JList (map (\<lambda>i. JObj [(''name'', JInt (int i))]) [0 ..< 100]))])\<rparr>, 1 / 100))
          (\<lambda>n. 7 * n) 0 20 (new_client 5 2 1000)))))
     = 21"
proof -
  let ?pg = "map (\<lambda>i. JObj [(''name'', JInt (int i))]) [0 ..< 100]"
  let ?ks = "map (\<lambda>i. KInt (int i)) [0 ..< 100]"
  let ?srv = "\<lambda>(n::nat) (q::request). (Responded \<lparr>status_code = 200,
             body = Some (JObj [(''submolts'', JList ?pg)])\<rparr>, 1 / 100 :: real)"
  have 1: "?pg \<noteq> []" by simp
  have 2: "distinct ?ks" by (simp add: distinct_map inj_on_def)
  have 3: "0 \<le> max_retries (new_client 5 2 1000)" by (simp add: new_client_def)
  have 4: "1 + nat 20 \<le> (21::nat)" by simp
  have 5: "serves_page ?srv ''submolts'' ?pg" by (simp add: serves_page_def)
  have 6: "map (record_key ''name'') ?pg = map Inr ?ks"
    by (simp add: record_key_def bind_err_def)
  have 7: "card (set ?ks) = 100" using distinct_card [OF 2] by (simp del: set_map set_upt)
  show ?thesis
    using fixed_page_run_terminates [where pg = ?pg and ks = ?ks and s = "new_client 5 2 1000"
        and max_stale_pages = 20 and fuel = 21 and srv = ?srv and rng = "\<lambda>n. 7 * n"
        and target_count = 0, OF 1 2 3 4] 5 6 7
    by (simp add: new_client_def)
qed

section \<open>Delivery of keys to the callback\<close>

text \<open>
  Claim C1 holds across pages (the last theorem of this section) but not inside one
  page: the filter compares each record with the keys seen before the page, and the keys
  of the page are added only after the callback. Here the first page holds the same record twice and the next page is empty;
  both collectors hand the key to the callback twice, in one call, and count it twice.
\<close>

theorem key_delivered_twice_within_page:
  "fst (fetch_submolts_streaming 2
          (\<lambda>n q. (Responded \<lparr>status_code = 200,
             body = Some (JObj [(''submolts'',
               JList (if n = 1 then [JObj [(''name'', JStr ''general'')],
                                     JObj [(''name'', JStr ''general'')]] else []))])\<rparr>, 0))
          (\<lambda>n. 0) 0 20 (new_client 5 2 1000))
     = Some (Inr 2)
 \<and> delivered (fst (snd (fetch_submolts_streaming 2
          (\<lambda>n q. (Responded \<lparr>status_code = 200,
             body = Some (JObj [(''submolts'',
               JList (if n = 1 then [JObj [(''name'', JStr ''general'')],
                                     JObj [(''name'', JStr ''general'')]] else []))])\<rparr>, 0))
          (\<lambda>n. 0) 0 20 (new_client 5 2 1000))))
     = [(1, [JObj [(''name'', JStr ''general'')], JObj [(''name'', JStr ''general'')]])]
 \<and> map (record_key ''name'')
       [JObj [(''name'', JStr ''general'')], JObj [(''name'', JStr ''general'')]]
     = [Inr (KStr ''general''), Inr (KStr ''general'')]
 \<and> fst (fetch_posts_streaming 2
          (\<lambda>n q. (Responded \<lparr>status_code = 200,
             body = Some (JObj [(''posts'',
               JList (if n = 1 then [JObj [(''id'', JStr ''p1'')],
                                     JObj [(''id'', JStr ''p1'')]] else []))])\<rparr>, 0))
          (\<lambda>n. 0) 0 20 (new_client 5 2 1000))
     = Some (Inr 2)
 \<and> delivered (fst (snd (fetch_posts_streaming 2
          (\<lambda>n q. (Responded \<lparr>status_code = 200,
             body = Some (JObj [(''posts'',
               JList (if n = 1 then [JObj [(''id'', JStr ''p1'')],
                                     JObj [(''id'', JStr ''p1'')]] else []))])\<rparr>, 0))
          (\<lambda>n. 0) 0 20 (new_client 5 2 1000))))
     = [(1, [JObj [(''id'', JStr ''p1'')], JObj [(''id'', JStr ''p1'')]])]"
  by (simp add: fetch_submolts_streaming_def fetch_posts_streaming_def numeral_2_eq_2
        submolts_pass_def posts_pass_def try_fetch_submolts_def try_fetch_posts_def
        request_returns raise_for_status_def response_json_def bind_err_def record_key_def
        Let_def new_client_def)

lemma new_records_unseen:
  "new_records field seen xs = Inr ys \<Longrightarrow> set (keys_of field ys) \<inter> seen = {}"
proof (induction xs arbitrary: ys)
  case Nil
  then show ?case by simp
next
  case (Cons x xs)
  then show ?case
    by (auto split: sum.splits if_splits)
qed

lemma add_keys_keys_of: "add_keys field ys seen = seen \<union> set (keys_of field ys)"
  by (induction ys arbitrary: seen) (auto split: sum.splits)

lemma submolts_pass_delivered:
  assumes "submolts_pass srv rng target_count max_stale_pages c s = (ctl, c', s')"
  shows "(delivered c' = delivered c \<and> seen_keys c' = seen_keys c \<and> page c' = page c)
       \<or> (\<exists>new. set (keys_of ''name'' new) \<inter> seen_keys c = {}
             \<and> delivered c' = delivered c @ [(page c + 1, new)] \<and> page c' = page c + 1
             \<and> seen_keys c' = seen_keys c \<union> set (keys_of ''name'' new))"
proof (cases "try_fetch_submolts srv (offset c) s")
  case (Pair res s1)
  show ?thesis
  proof (cases res)
    case (Inl e)
    with Pair assms show ?thesis
      by (auto simp add: submolts_pass_def Let_def split: if_splits sum.splits)
  next
    case (Inr submolts)
    show ?thesis
    proof (cases "truthy submolts")
      case False
      with Inr Pair assms show ?thesis
        by (auto simp add: submolts_pass_def Let_def split: if_splits)
    next
      case True
      show ?thesis
      proof (cases "py_iter submolts")
        case (Inl e)
        with True Inr Pair assms show ?thesis
          by (auto simp add: submolts_pass_def Let_def)
      next
        case items: (Inr items)
        show ?thesis
        proof (cases "new_records ''name'' (seen_keys c) items")
          case (Inl e)
          with items True Inr Pair assms show ?thesis
            by (auto simp add: submolts_pass_def Let_def)
        next
          case new: (Inr new)
          note un = new_records_unseen [OF new]
          show ?thesis
          proof (cases "new = []")
            case True
            with new items \<open>truthy submolts\<close> Inr Pair assms show ?thesis
              by (auto simp add: submolts_pass_def Let_def split: if_splits)
          next
            case False
            have "delivered c' = delivered c @ [(page c + 1, new)] \<and> page c' = page c + 1
                \<and> seen_keys c' = seen_keys c \<union> set (keys_of ''name'' new)"
              using False new items \<open>truthy submolts\<close> Inr Pair assms
              by (auto simp add: submolts_pass_def Let_def add_keys_keys_of split: if_splits)
            with un show ?thesis by blast
          qed
        qed
      qed
    qed
  qed
qed


lemma posts_pass_delivered:
  assumes "posts_pass srv rng target_count max_stale_pages c s = (ctl, c', s')"
  shows "(delivered c' = delivered c \<and> seen_keys c' = seen_keys c \<and> page c' = page c)
       \<or> (\<exists>new. set (keys_of ''id'' new) \<inter> seen_keys c = {}
             \<and> delivered c' = delivered c @ [(page c + 1, new)] \<and> page c' = page c + 1
             \<and> seen_keys c' = seen_keys c \<union> set (keys_of ''id'' new))"
proof (cases "try_fetch_posts srv (offset c) s")
  case (Pair res s1)
  show ?thesis
  proof (cases res)
    case (Inl e)
    with Pair assms show ?thesis
      by (auto simp add: posts_pass_def Let_def split: if_splits sum.splits)
  next
    case (Inr r)
    show ?thesis
    proof (cases "bind_err (response_json r) (\<lambda>data. dict_get data ''posts'' (JList []))")
      case (Inl e)
      with Inr Pair assms show ?thesis
        by (auto simp add: posts_pass_def Let_def)
    next
      case dec: (Inr posts)
      show ?thesis
      proof (cases "truthy posts")
        case False
        with dec Inr Pair assms show ?thesis
          by (auto simp add: posts_pass_def Let_def split: if_splits)
      next
        case True
        show ?thesis
        proof (cases "py_iter posts")
          case (Inl e)
          with True dec Inr Pair assms show ?thesis
            by (auto simp add: posts_pass_def Let_def)
        next
          case items: (Inr items)
          show ?thesis
          proof (cases "new_records ''id'' (seen_keys c) items")
            case (Inl e)
            with items True dec Inr Pair assms show ?thesis
              by (auto simp add: posts_pass_def Let_def)
          next
            case new: (Inr new)
            note un = new_records_unseen [OF new]
            show ?thesis
            proof (cases "new = []")
              case True
              with new items \<open>truthy posts\<close> dec Inr Pair assms show ?thesis
                by (auto simp add: posts_pass_def Let_def split: if_splits)
            next
              case False
              have "delivered c' = delivered c @ [(page c + 1, new)] \<and> page c' = page c + 1
                  \<and> seen_keys c' = seen_keys c \<union> set (keys_of ''id'' new)"
                using False new items \<open>truthy posts\<close> dec Inr Pair assms
                by (auto simp add: posts_pass_def Let_def add_keys_keys_of split: if_splits)
              with un show ?thesis by blast
            qed
          qed
        qed
      qed
    qed
  qed
qed

lemma delivered_inv_step:
  assumes "distinct (concat (map (\<lambda>b. remdups (keys_of f (snd b))) D))"
      and "set (concat (map (\<lambda>b. keys_of f (snd b)) D)) \<subseteq> seen"
      and "map fst D = [1 ..< Suc p]"
      and "set (keys_of f new) \<inter> seen = {}"
  shows "distinct (concat (map (\<lambda>b. remdups (keys_of f (snd b))) (D @ [(p + 1, new)])))
       \<and> set (concat (map (\<lambda>b. keys_of f (snd b)) (D @ [(p + 1, new)])))
           \<subseteq> seen \<union> set (keys_of f new)
       \<and> map fst (D @ [(p + 1, new)]) = [1 ..< Suc (p + 1)]"
proof -
  have eq: "set (concat (map (\<lambda>b. remdups (keys_of f (snd b))) D))
          = set (concat (map (\<lambda>b. keys_of f (snd b)) D))"
    by auto
  have "set (concat (map (\<lambda>b. remdups (keys_of f (snd b))) D)) \<inter> set (keys_of f new) = {}"
    unfolding eq using assms(2) assms(4) by blast
  then have d: "distinct (concat (map (\<lambda>b. remdups (keys_of f (snd b))) (D @ [(p + 1, new)])))"
    using assms(1) by simp
  have s: "set (concat (map (\<lambda>b. keys_of f (snd b)) (D @ [(p + 1, new)])))
           \<subseteq> seen \<union> set (keys_of f new)"
    using assms(2) by auto
  have m: "map fst (D @ [(p + 1, new)]) = [1 ..< Suc (p + 1)]"
    using assms(3) by simp
  show ?thesis using d s m by blast
qed

lemma submolts_loop_delivered:
  assumes "distinct (concat (map (\<lambda>b. remdups (keys_of ''name'' (snd b))) (delivered c)))"
      and "set (concat (map (\<lambda>b. keys_of ''name'' (snd b)) (delivered c))) \<subseteq> seen_keys c"
      and "map fst (delivered c) = [1 ..< Suc (page c)]"
  shows "distinct (concat (map (\<lambda>b. remdups (keys_of ''name'' (snd b)))
           (delivered (fst (snd (submolts_loop fuel srv rng target_count max_stale_pages c s))))))
       \<and> map fst (delivered (fst (snd
             (submolts_loop fuel srv rng target_count max_stale_pages c s))))
           = [1 ..< Suc (page (fst (snd
                (submolts_loop fuel srv rng target_count max_stale_pages c s))))]"
  using assms
proof (induction fuel arbitrary: c s)
  case 0
  then show ?case by simp
next
  case (Suc fuel)
  obtain ctl c' s' where pass: "submolts_pass srv rng target_count max_stale_pages c s = (ctl, c', s')"
    by (cases "submolts_pass srv rng target_count max_stale_pages c s") auto
  have inv: "distinct (concat (map (\<lambda>b. remdups (keys_of ''name'' (snd b))) (delivered c')))
       \<and> set (concat (map (\<lambda>b. keys_of ''name'' (snd b)) (delivered c'))) \<subseteq> seen_keys c'
       \<and> map fst (delivered c') = [1 ..< Suc (page c')]"
    using submolts_pass_delivered [OF pass]
  proof (elim disjE exE conjE)
    assume "delivered c' = delivered c" "seen_keys c' = seen_keys c" "page c' = page c"
    with Suc.prems show ?thesis by simp
  next
    fix new
    assume n: "set (keys_of ''name'' new) \<inter> seen_keys c = {}"
       "delivered c' = delivered c @ [(page c + 1, new)]" "page c' = page c + 1"
       "seen_keys c' = seen_keys c \<union> set (keys_of ''name'' new)"
    from delivered_inv_step [OF Suc.prems n(1)] show ?thesis
      unfolding n(2) n(3) n(4) .
  qed
  show ?case
  proof (cases ctl)
    case Continue
    with pass Suc.IH [of c' s'] inv show ?thesis by simp
  next
    case Break
    with pass inv show ?thesis by simp
  next
    case (Raise e)
    with pass inv show ?thesis by simp
  qed
qed

lemma posts_loop_delivered:
  assumes "distinct (concat (map (\<lambda>b. remdups (keys_of ''id'' (snd b))) (delivered c)))"
      and "set (concat (map (\<lambda>b. keys_of ''id'' (snd b)) (delivered c))) \<subseteq> seen_keys c"
      and "map fst (delivered c) = [1 ..< Suc (page c)]"
  shows "distinct (concat (map (\<lambda>b. remdups (keys_of ''id'' (snd b)))
           (delivered (fst (snd (posts_loop fuel srv rng target_count max_stale_pages c s))))))
       \<and> map fst (delivered (fst (snd
             (posts_loop fuel srv rng target_count max_stale_pages c s))))
           = [1 ..< Suc (page (fst (snd
                (posts_loop fuel srv rng target_count max_stale_pages c s))))]"
  using assms
proof (induction fuel arbitrary: c s)
  case 0
  then show ?case by simp
next
  case (Suc fuel)
  obtain ctl c' s' where pass: "posts_pass srv rng target_count max_stale_pages c s = (ctl, c', s')"
    by (cases "posts_pass srv rng target_count max_stale_pages c s") auto
  have inv: "distinct (concat (map (\<lambda>b. remdups (keys_of ''id'' (snd b))) (delivered c')))
       \<and> set (concat (map (\<lambda>b. keys_of ''id'' (snd b)) (delivered c'))) \<subseteq> seen_keys c'
       \<and> map fst (delivered c') = [1 ..< Suc (page c')]"
    using posts_pass_delivered [OF pass]
  proof (elim disjE exE conjE)
    assume "delivered c' = delivered c" "seen_keys c' = seen_keys c" "page c' = page c"
    with Suc.prems show ?thesis by simp
  next
    fix new
    assume n: "set (keys_of ''id'' new) \<inter> seen_keys c = {}"
       "delivered c' = delivered c @ [(page c + 1, new)]" "page c' = page c + 1"
       "seen_keys c' = seen_keys c \<union> set (keys_of ''id'' new)"
    from delivered_inv_step [OF Suc.prems n(1)] show ?thesis
      unfolding n(2) n(3) n(4) .
  qed
  show ?case
  proof (cases ctl)
    case Continue
    with pass Suc.IH [of c' s'] inv show ?thesis by simp
  next
    case Break
    with pass inv show ?thesis by simp
  next
    case (Raise e)
    with pass inv show ?thesis by simp
  qed
qed


text \<open>
  What does hold of every run of either collector, finished or not, for any backend and
  any random source: a key handed to the callback in one call is not handed to it in a
  later call (once the repetitions inside each batch are removed, all delivered keys are
  distinct), and the page numbers of the calls are 1, 2, 3, ... in order.
\<close>

theorem delivered_keys_distinct_across_pages:
  "distinct (concat (map (\<lambda>b. remdups (keys_of ''name'' (snd b)))
      (delivered (fst (snd (fetch_submolts_streaming fuel srv rng target_count max_stale_pages s))))))
 \<and> map fst (delivered (fst (snd
        (fetch_submolts_streaming fuel srv rng target_count max_stale_pages s))))
     = [1 ..< Suc (page (fst (snd
          (fetch_submolts_streaming fuel srv rng target_count max_stale_pages s))))]
 \<and> distinct (concat (map (\<lambda>b. remdups (keys_of ''id'' (snd b)))
      (delivered (fst (snd (fetch_posts_streaming fuel srv rng target_count max_stale_pages s))))))
 \<and> map fst (delivered (fst (snd
        (fetch_posts_streaming fuel srv rng target_count max_stale_pages s))))
     = [1 ..< Suc (page (fst (snd
          (fetch_posts_streaming fuel srv rng target_count max_stale_pages s))))]"
  using submolts_loop_delivered [of init_collector fuel srv rng target_count max_stale_pages s]
        posts_loop_delivered [of init_collector fuel srv rng target_count max_stale_pages s]
  by (simp add: fetch_submolts_streaming_def fetch_posts_streaming_def)

end
